theory Spec2Isabelle
  imports
    Main
    "HOL-Library.Char_ord"
    "HOL-Library.List_Lexorder"
begin

section \<open>Values\<close>

text \<open>
  The values that flow through the engine (subjects, matcher arguments) are JavaScript
  values. The model keeps the part of them that \<^verbatim>\<open>stableStringify\<close> distinguishes:
  \<^verbatim>\<open>undefined\<close>, \<^verbatim>\<open>null\<close>, booleans, integer-valued numbers, strings, arrays and plain
  objects. An object is the list of its own enumerable properties in the order in which
  \<^verbatim>\<open>Object.keys\<close> and \<^verbatim>\<open>JSON.stringify\<close> enumerate them, so that key order is part of
  the value, as it is in JavaScript.
  Strings are lists of 8-bit characters: a string of the model is a string of code units
  below 256. Numbers are the integers; non-integral numbers and \<^verbatim>\<open>NaN\<close> are outside the model.
\<close>

datatype jsval =
    JUndefined
  | JNull
  | JBool bool
  | JNum int
  | JStr string
  | JArr "jsval list"
  | JObj "(string \<times> jsval) list"

subsection \<open>What the platform's \<^verbatim>\<open>JSON.stringify\<close> prints for primitives\<close>

definition dquote :: char where
  "dquote = CHR 0x22"

definition bslash :: char where
  "bslash = CHR 0x5C"

definition digit_char :: "nat \<Rightarrow> char" where
  "digit_char d = ''0123456789abcdef'' ! d"

fun digits10 :: "nat \<Rightarrow> string" where
  "digits10 n = (if n < 10 then [digit_char n] else digits10 (n div 10) @ [digit_char (n mod 10)])"

declare digits10.simps [simp del]

definition number_to_string :: "int \<Rightarrow> string" where
  "number_to_string i = (if i < 0 then CHR ''-'' # digits10 (nat (- i)) else digits10 (nat i))"

text \<open>\<^verbatim>\<open>QuoteJSONString\<close>: the two-character escapes, \<^verbatim>\<open>\u00XX\<close> for the other control
  characters, every other character as it is.\<close>

definition json_escape :: "char \<Rightarrow> string" where
  "json_escape c =
     (if c = CHR 0x08 then [bslash, CHR ''b'']
      else if c = CHR 0x09 then [bslash, CHR ''t'']
      else if c = CHR 0x0A then [bslash, CHR ''n'']
      else if c = CHR 0x0C then [bslash, CHR ''f'']
      else if c = CHR 0x0D then [bslash, CHR ''r'']
      else if c = dquote then [bslash, dquote]
      else if c = bslash then [bslash, bslash]
      else if (of_char c :: nat) < 32
        then [bslash, CHR ''u'', CHR ''0'', CHR ''0'',
              digit_char (of_char c div 16), digit_char (of_char c mod 16)]
      else [c])"

definition json_quote :: "string \<Rightarrow> string" where
  "json_quote s = dquote # concat (map json_escape s) @ [dquote]"

text \<open>\<^verbatim>\<open>JSON.stringify\<close> of a value that is not an object. Its result is a string or
  \<^verbatim>\<open>undefined\<close> (\<open>None\<close>).\<close>

fun JSON_stringify_prim :: "jsval \<Rightarrow> string option" where
  "JSON_stringify_prim JUndefined = None"
| "JSON_stringify_prim JNull = Some ''null''"
| "JSON_stringify_prim (JBool b) = Some (if b then ''true'' else ''false'')"
| "JSON_stringify_prim (JNum i) = Some (number_to_string i)"
| "JSON_stringify_prim (JStr s) = Some (json_quote s)"
| "JSON_stringify_prim _ = None"

text \<open>String concatenation turns \<^verbatim>\<open>undefined\<close> into the text \<^verbatim>\<open>undefined\<close>;
  \<^verbatim>\<open>Array.prototype.join\<close> turns it into the empty string.\<close>

definition ToString :: "string option \<Rightarrow> string" where
  "ToString x = (case x of None \<Rightarrow> ''undefined'' | Some s \<Rightarrow> s)"

definition join_element :: "string option \<Rightarrow> string" where
  "join_element x = (case x of None \<Rightarrow> [] | Some s \<Rightarrow> s)"

fun join_comma :: "string option list \<Rightarrow> string" where
  "join_comma [] = []"
| "join_comma [x] = join_element x"
| "join_comma (x # y # ys) = join_element x @ CHR '','' # join_comma (y # ys)"

definition Object_keys :: "(string \<times> jsval) list \<Rightarrow> string list" where
  "Object_keys kvs = map fst kvs"

subsection \<open>utils.ts\<close>

lemma map_of_size_less:
  "map_of kvs k = Some v \<Longrightarrow> size v < Suc (size_list (size_prod (\<lambda>_. 0) size) kvs)"
  by (induction kvs) (auto split: if_splits)

function stableStringify :: "jsval \<Rightarrow> string option" where
  "stableStringify (JArr xs) =
     Some (CHR ''['' # join_comma (map stableStringify xs) @ '']'')"
| "stableStringify (JObj kvs) =
     Some (CHR ''{'' #
       join_comma (map (\<lambda>k. Some (json_quote k @ CHR '':'' #
                      ToString (case map_of kvs k of
                                  None \<Rightarrow> None
                                | Some v \<Rightarrow> stableStringify v)))
                   (sort (Object_keys kvs)))
       @ ''}'')"
| "stableStringify JUndefined = JSON_stringify_prim JUndefined"
| "stableStringify JNull = JSON_stringify_prim JNull"
| "stableStringify (JBool b) = JSON_stringify_prim (JBool b)"
| "stableStringify (JNum i) = JSON_stringify_prim (JNum i)"
| "stableStringify (JStr s) = JSON_stringify_prim (JStr s)"
  by pat_completeness auto
termination
  by (relation "measure size") (auto dest: map_of_size_less simp: less_Suc_eq_le intro: le_less_trans size_list_estimation')

definition makeMatcherCacheKey :: "string \<Rightarrow> jsval \<Rightarrow> string" where
  "makeMatcherCacheKey matcherName args = matcherName @ ''|args:'' @ ToString (stableStringify args)"

subsection \<open>Deep equality and serialisable values\<close>

text \<open>A JavaScript object has each property name once.\<close>

fun wf_obj :: "jsval \<Rightarrow> bool" where
  "wf_obj (JArr xs) = (\<forall>x\<in>set xs. wf_obj x)"
| "wf_obj (JObj kvs) = (distinct (map fst kvs) \<and> (\<forall>(k, v)\<in>set kvs. wf_obj v))"
| "wf_obj _ = True"

text \<open>The JSON values of the model: no \<^verbatim>\<open>undefined\<close> at any depth, numbers that are safe
  integers (which print in plain decimal), property names distinct.\<close>

fun is_json :: "jsval \<Rightarrow> bool" where
  "is_json JUndefined = False"
| "is_json (JNum i) = (\<bar>i\<bar> \<le> 9007199254740991)"
| "is_json (JArr xs) = (\<forall>x\<in>set xs. is_json x)"
| "is_json (JObj kvs) = (distinct (map fst kvs) \<and> (\<forall>(k, v)\<in>set kvs. is_json v))"
| "is_json _ = True"

text \<open>Deep equality up to the order of object keys: arrays agree position by position,
  objects have the same property names and deeply equal values under each name.\<close>

fun deep_eq :: "jsval \<Rightarrow> jsval \<Rightarrow> bool" where
  "deep_eq (JArr xs) (JArr ys) = list_all2 deep_eq xs ys"
| "deep_eq (JObj xs) (JObj ys) =
     (set (map fst xs) = set (map fst ys) \<and>
      (\<forall>(k, v)\<in>set xs. \<forall>(k', w)\<in>set ys. k = k' \<longrightarrow> deep_eq v w))"
| "deep_eq JUndefined JUndefined = True"
| "deep_eq JNull JNull = True"
| "deep_eq (JBool a) (JBool b) = (a = b)"
| "deep_eq (JNum a) (JNum b) = (a = b)"
| "deep_eq (JStr a) (JStr b) = (a = b)"
| "deep_eq _ _ = False"

text \<open>Notions used only in the proofs about \<open>stableStringify\<close>: the text a value
  contributes, the characters that can follow a value inside an array or an object, and
  the class of value a first character announces.\<close>

definition enc :: "jsval \<Rightarrow> string" where
  "enc v = ToString (stableStringify v)"

definition delim :: "string \<Rightarrow> bool" where
  "delim r = (r = [] \<or> hd r \<in> {CHR '','', CHR '']'', CHR ''}''})"

definition first_kind :: "char \<Rightarrow> nat" where
  "first_kind c =
     (if c = CHR ''n'' then 0
      else if c = CHR ''t'' \<or> c = CHR ''f'' then 1
      else if c \<in> set ''0123456789-'' then 2
      else if c = dquote then 3
      else if c = CHR ''['' then 4
      else if c = CHR ''{'' then 5
      else 6)"

fun kind :: "jsval \<Rightarrow> nat" where
  "kind JNull = 0"
| "kind (JBool b) = 1"
| "kind (JNum i) = 2"
| "kind (JStr s) = 3"
| "kind (JArr xs) = 4"
| "kind (JObj kvs) = 5"
| "kind JUndefined = 6"

subsection \<open>\<^verbatim>\<open>JSON.stringify\<close> of any value\<close>

text \<open>Properties are printed in enumeration order, a property whose value prints as
  \<^verbatim>\<open>undefined\<close> is left out, and an array element that prints as \<^verbatim>\<open>undefined\<close> becomes
  \<^verbatim>\<open>null\<close>.\<close>

fun JSON_stringify :: "jsval \<Rightarrow> string option" where
  "JSON_stringify (JArr xs) =
     Some (CHR ''['' #
       join_comma (map (\<lambda>x. Some (case JSON_stringify x of None \<Rightarrow> ''null'' | Some s \<Rightarrow> s)) xs)
       @ '']'')"
| "JSON_stringify (JObj kvs) =
     Some (CHR ''{'' #
       join_comma (map Some (concat (map (\<lambda>p. case JSON_stringify (snd p) of
                                               None \<Rightarrow> []
                                             | Some s \<Rightarrow> [json_quote (fst p) @ CHR '':'' # s]) kvs)))
       @ ''}'')"
| "JSON_stringify JUndefined = JSON_stringify_prim JUndefined"
| "JSON_stringify JNull = JSON_stringify_prim JNull"
| "JSON_stringify (JBool b) = JSON_stringify_prim (JBool b)"
| "JSON_stringify (JNum i) = JSON_stringify_prim (JNum i)"
| "JSON_stringify (JStr s) = JSON_stringify_prim (JStr s)"

section \<open>Errors (errors.ts)\<close>

text \<open>
  \<open>Error m\<close> is a plain \<^verbatim>\<open>Error\<close> with message \<open>m\<close>.
  \<open>MatcherArgumentError i m matcherName segmentName\<close> and
  \<open>MatcherEvaluationError i matcherName segmentName subject cause\<close> are the two classes of
  errors.ts; \<open>i\<close> is the identity of the object: the number of error objects the wrapping
  layer had constructed before it. A thrown value is an error object or some other value,
  kept as the text \<^verbatim>\<open>String(value)\<close>.
\<close>

datatype err =
    Error string
  | MatcherArgumentError nat string string string
  | MatcherEvaluationError nat string string jsval err

datatype thrown = ThrownError err | ThrownValue string

text \<open>\<^verbatim>\<open>e instanceof Error ? e : new Error(String(e))\<close>\<close>

definition to_Error :: "thrown \<Rightarrow> err" where
  "to_Error t = (case t of ThrownError e \<Rightarrow> e | ThrownValue s \<Rightarrow> Error s)"

section \<open>Matcher configurations (types.ts, matcher.ts)\<close>

text \<open>
  A schema maps a value to the result of \<^verbatim>\<open>validate\<close>: issues, a value, or neither; or
  the call throws (\<open>ValidateThrows\<close>: \<^verbatim>\<open>validate\<close> itself throws, or the wrapper's inspection
  of what it returns throws, as the \<^verbatim>\<open>in\<close> test does on a result that is not an object).
  A single evaluator receives the context object and returns a boolean or a promise of
  one: it resolves (at a tick), rejects (at a tick) or throws synchronously.
  A batch evaluator receives the contexts of the batch; for each entry it calls the
  resolver with a boolean (at a tick) or never calls it, and it may fail (throw or reject).
\<close>

datatype validation = Issues "string list" | Value jsval | NoValue | ValidateThrows thrown

datatype behaviour = Returns nat bool | Rejects nat thrown | Throws thrown

record batch_behaviour =
  resolutions :: "(nat \<times> bool) option list"
  failure :: "(nat \<times> thrown) option"

datatype MatcherNode =
    MatcherN string "jsval list"
  | AndN "MatcherNode list"
  | OrN "MatcherNode list"
  | NotN MatcherNode

record matcher_config =
  arguments :: "(jsval \<Rightarrow> validation) option"
  evaluate :: "(jsval \<Rightarrow> behaviour) option"
  evaluateBatch :: "(jsval list \<Rightarrow> batch_behaviour) option"
  config_toNode :: "MatcherNode option"

text \<open>\<open>createMatcher\<close>: a field that is absent is \<open>None\<close>; a field that is present holds a
  function or a schema object, which is truthy.\<close>

definition createMatcher :: "'a matcher_config_scheme \<Rightarrow> 'a matcher_config_scheme" where
  "createMatcher cfg =
     (if evaluate cfg \<noteq> None \<and> evaluateBatch cfg \<noteq> None
      then cfg\<lparr>evaluate := None\<rparr>
      else cfg)"

section \<open>Promises and the batch coalescer (DataLoader.ts)\<close>

text \<open>A promise of a boolean is a number; the store says which promises are resolved,
  with what and at which tick. A resolver is the promise it resolves; resolving a promise
  a second time changes nothing.\<close>

record pstore =
  next_promise :: nat
  settled :: "nat \<rightharpoonup> (nat \<times> bool)"

definition resolve :: "nat \<Rightarrow> nat \<times> bool \<Rightarrow> pstore \<Rightarrow> pstore" where
  "resolve p r ps = (case settled ps p of None \<Rightarrow> ps\<lparr>settled := (settled ps)(p \<mapsto> r)\<rparr> | Some _ \<Rightarrow> ps)"

record DataLoader =
  dl_evaluateBatch :: "jsval list \<Rightarrow> batch_behaviour"
  dl_queue :: "(jsval \<times> nat) list"
  dl_scheduled :: bool
  dl_cache :: "string option \<rightharpoonup> nat"

definition new_DataLoader :: "(jsval list \<Rightarrow> batch_behaviour) \<Rightarrow> DataLoader" where
  "new_DataLoader ev = \<lparr>dl_evaluateBatch = ev, dl_queue = [], dl_scheduled = False, dl_cache = Map.empty\<rparr>"

definition getCacheKey :: "jsval \<Rightarrow> string option" where
  "getCacheKey arg = JSON_stringify arg"

text \<open>\<open>load\<close>. The flush is scheduled as a microtask exactly when \<open>dl_scheduled\<close> goes from
  false to true.\<close>

definition DataLoader_load :: "jsval \<Rightarrow> DataLoader \<Rightarrow> pstore \<Rightarrow> nat \<times> DataLoader \<times> pstore" where
  "DataLoader_load arg dl ps =
     (let key = getCacheKey arg in
      case dl_cache dl key of
        Some p \<Rightarrow> (p, dl, ps)
      | None \<Rightarrow>
          (let p = next_promise ps;
               ps' = ps\<lparr>next_promise := Suc p\<rparr>;
               dl1 = dl\<lparr>dl_queue := dl_queue dl @ [(arg, p)]\<rparr>;
               dl2 = (if \<not> dl_scheduled dl1 then dl1\<lparr>dl_scheduled := True\<rparr> else dl1);
               dl3 = dl2\<lparr>dl_cache := (dl_cache dl2)(key \<mapsto> p)\<rparr>
           in (p, dl3, ps')))"

text \<open>The resolver calls a batch evaluator makes, entry by entry.\<close>

fun resolve_all :: "(jsval \<times> nat) list \<Rightarrow> (nat \<times> bool) option list \<Rightarrow> pstore \<Rightarrow> pstore" where
  "resolve_all [] rs ps = ps"
| "resolve_all (e # q) [] ps = ps"
| "resolve_all (e # q) (r # rs) ps =
     resolve_all q rs (case r of None \<Rightarrow> ps | Some v \<Rightarrow> resolve (snd e) v ps)"

text \<open>A call of a batch evaluator with a batch of (request, resolver) pairs: the store
  after the resolver calls the evaluator makes, the record of the call (the batch it was
  given), and the evaluator's failure, if any.\<close>

definition call_evaluateBatch ::
  "(jsval list \<Rightarrow> batch_behaviour) \<Rightarrow> (jsval \<times> nat) list \<Rightarrow> pstore
   \<Rightarrow> pstore \<times> (jsval \<times> nat) list list \<times> thrown option" where
  "call_evaluateBatch ev batch ps =
     (let b = ev (map fst batch)
      in (resolve_all batch (resolutions b) ps, [batch], map_option snd (failure b)))"

text \<open>\<open>flush\<close>: the first four statements swap the state out; then the evaluator is
  called with the batch. The result is the new loader, the new store, the record of the
  evaluator calls, and the error the returned \<^verbatim>\<open>ResultAsync\<close> holds, if any.\<close>

definition swap_out :: "DataLoader \<Rightarrow> (jsval \<times> nat) list \<times> DataLoader" where
  "swap_out dl = (dl_queue dl, dl\<lparr>dl_cache := Map.empty, dl_queue := [], dl_scheduled := False\<rparr>)"

definition DataLoader_flush ::
  "DataLoader \<Rightarrow> pstore \<Rightarrow> DataLoader \<times> pstore \<times> (jsval \<times> nat) list list \<times> thrown option" where
  "DataLoader_flush dl ps =
     (let (batch, dl') = swap_out dl;
          (ps', invocations, res) = call_evaluateBatch (dl_evaluateBatch dl') batch ps
      in (dl', ps', invocations, res))"

text \<open>The states a coalescer is in between calls: the dedup cache knows exactly the
  requests of the queue, no two requests of the queue have the same key, and the promises
  of the queue have been created.\<close>

definition loader_ok :: "DataLoader \<Rightarrow> pstore \<Rightarrow> bool" where
  "loader_ok dl ps =
     ((\<forall>k p. dl_cache dl k = Some p \<longleftrightarrow> (\<exists>c. (c, p) \<in> set (dl_queue dl) \<and> getCacheKey c = k)) \<and>
      distinct (map (\<lambda>e. getCacheKey (fst e)) (dl_queue dl)) \<and>
      (\<forall>e\<in>set (dl_queue dl). snd e < next_promise ps))"

section \<open>Matcher definitions and their evaluation (wrapMatchers.ts, operators.ts)\<close>

text \<open>
  A \<^verbatim>\<open>ResultAsync\<close> is a future: already settled at a tick with an error or a boolean
  (\<open>Done\<close>), the promise a coalescer returned (\<open>Await\<close>), or what a logical operator
  builds from the futures of its operands.
  A call of \<^verbatim>\<open>_evaluateInternal\<close> throws synchronously or returns a future.
  A matcher definition is what a wrapped factory returns (the matcher's name, its
  configuration and the argument the factory was called with; \<^verbatim>\<open>undefined\<close> for a matcher
  without argument schema) or what a logical operator returns.
\<close>

datatype fut =
    Done nat "err + bool"
  | Await nat
  | AllAnd "fut list"
  | AllOr "fut list"
  | Negate fut

datatype 'a launch = Threw thrown | Launched 'a

datatype mdef =
    Wrapped string matcher_config jsval
  | AndDef "mdef list"
  | OrDef "mdef list"
  | NotDef mdef

fun toNode :: "mdef \<Rightarrow> MatcherNode" where
  "toNode (Wrapped name matcherObj matcherArg) =
     MatcherN name (if arguments matcherObj \<noteq> None then [matcherArg] else [])"
| "toNode (AndDef ms) = AndN (map toNode ms)"
| "toNode (OrDef ms) = OrN (map toNode ms)"
| "toNode (NotDef m) = NotN (toNode m)"

text \<open>A value of the batch context: the array that \<open>flushAllBatchQueues\<close> expects, or the
  coalescer that the wrapped matchers store.\<close>

datatype bcval = Queue "(jsval \<times> nat) list" | Loader DataLoader

text \<open>
  The batch context is a plain object (\<^verbatim>\<open>{}\<close>), so \<^verbatim>\<open>batchContext[loaderKey]\<close> finds a
  property of the object itself or, failing that, the member of \<^verbatim>\<open>Object.prototype\<close> of that
  name. All these members are truthy (functions, and the prototype itself under
  \<^verbatim>\<open>__proto__\<close>), and none of them has a \<^verbatim>\<open>load\<close> method.
\<close>

definition Object_prototype :: "string list" where
  "Object_prototype =
     [''constructor'', ''__defineGetter__'', ''__defineSetter__'', ''hasOwnProperty'',
      ''__lookupGetter__'', ''__lookupSetter__'', ''isPrototypeOf'', ''propertyIsEnumerable'',
      ''toString'', ''valueOf'', ''__proto__'', ''toLocaleString'']"

datatype property = Absent | Own bcval | Inherited

definition bc_get :: "(string \<times> bcval) list \<Rightarrow> string \<Rightarrow> property" where
  "bc_get bc k =
     (case map_of bc k of
        Some v \<Rightarrow> Own v
      | None \<Rightarrow> if k \<in> set Object_prototype then Inherited else Absent)"

fun bc_update :: "string \<Rightarrow> bcval \<Rightarrow> (string \<times> bcval) list \<Rightarrow> (string \<times> bcval) list" where
  "bc_update k v [] = [(k, v)]"
| "bc_update k v (e # es) = (if fst e = k then (k, v) # es else e # bc_update k v es)"

record eval_context =
  params :: jsval
  segmentName :: "string option"
  hasBatchContext :: bool

datatype observer_context =
  ObserverContext (oc_matcherName: "string option") (oc_segmentName: "string option") (oc_subject: jsval)

text \<open>
  The state a \<^verbatim>\<open>matches()\<close> call works on. \<open>cache\<close>, \<open>batchContext\<close> and \<open>microtasks\<close> (the
  coalescers whose flush is scheduled) belong to one call. The rest records what the
  environment sees: the promise store, the number of error objects constructed, the calls
  of schemas (\<open>validations\<close>), of single evaluators (\<open>evaluations\<close>: matcher name and bound
  argument), of batch evaluators, of \<^verbatim>\<open>logger.error\<close> and of the error observer.
\<close>

record world =
  cache :: "string \<rightharpoonup> fut"
  batchContext :: "(string \<times> bcval) list"
  microtasks :: "string list"
  promises :: pstore
  allocated :: nat
  validations :: "(string \<times> jsval) list"
  evaluations :: "(string \<times> jsval) list"
  batchEvaluations :: "jsval list list"
  logged :: "err list"
  observed :: "(err \<times> observer_context) list"

definition errAsync :: "err \<Rightarrow> fut" where
  "errAsync e = Done 0 (Inl e)"

text \<open>\<^verbatim>\<open>segmentName ?? "unknown"\<close>\<close>

definition segmentName_or_unknown :: "eval_context \<Rightarrow> string" where
  "segmentName_or_unknown ctx = (case segmentName ctx of None \<Rightarrow> ''unknown'' | Some s \<Rightarrow> s)"

fun join_with :: "string \<Rightarrow> string list \<Rightarrow> string" where
  "join_with sep [] = []"
| "join_with sep [x] = x"
| "join_with sep (x # y # ys) = x @ sep @ join_with sep (y # ys)"

text \<open>The context object an evaluator receives: \<^verbatim>\<open>{params, arg, cache, segmentName}\<close>, without
  \<^verbatim>\<open>arg\<close> for a matcher without argument schema. The cache handle shows as an empty object.\<close>

definition context_object :: "jsval \<Rightarrow> jsval option \<Rightarrow> string option \<Rightarrow> jsval" where
  "context_object p a seg =
     JObj ([(''params'', p)] @ (case a of None \<Rightarrow> [] | Some v \<Rightarrow> [(''arg'', v)]) @
           [(''cache'', JObj []),
            (''segmentName'', case seg of None \<Rightarrow> JUndefined | Some s \<Rightarrow> JStr s)])"

text \<open>The validation of the bound argument. It sits before the \<^verbatim>\<open>try\<close> block, so a throw
  of the schema leaves the entry point; otherwise it gives an error future (never cached)
  or the validated value.\<close>

definition validate_argument ::
  "(jsval \<Rightarrow> validation) \<Rightarrow> string \<Rightarrow> jsval \<Rightarrow> eval_context \<Rightarrow> world
   \<Rightarrow> (fut + jsval) launch \<times> world" where
  "validate_argument matcherSchema name matcherArg ctx w =
     (let w1 = w\<lparr>validations := validations w @ [(name, matcherArg)]\<rparr> in
      case matcherSchema matcherArg of
        ValidateThrows t \<Rightarrow> (Threw t, w1)
      | Issues msgs \<Rightarrow>
          (Launched (Inl (errAsync (MatcherArgumentError (allocated w1) (join_with '', '' msgs) name
                                      (segmentName_or_unknown ctx)))),
           w1\<lparr>allocated := Suc (allocated w1)\<rparr>)
      | NoValue \<Rightarrow>
          (Launched (Inl (errAsync (MatcherArgumentError (allocated w1)
                                      ''Matcher argument schema did not return a valid value'' name
                                      (segmentName_or_unknown ctx)))),
           w1\<lparr>allocated := Suc (allocated w1)\<rparr>)
      | Value v \<Rightarrow> (Launched (Inr v), w1))"

text \<open>Single evaluate mode: the \<^verbatim>\<open>try\<close> block with its \<^verbatim>\<open>catch\<close>.\<close>

definition evaluate_single ::
  "string \<Rightarrow> matcher_config \<Rightarrow> jsval \<Rightarrow> string \<Rightarrow> jsval \<Rightarrow> eval_context \<Rightarrow> world \<Rightarrow> fut launch \<times> world" where
  "evaluate_single name matcherObj matcherArg key contextForEval ctx w =
     (case evaluate matcherObj of
        None \<Rightarrow>
          (Launched (errAsync (MatcherEvaluationError (allocated w) name (segmentName_or_unknown ctx)
                       (params ctx) (Error ''Matcher object does not have an evaluate function''))),
           w\<lparr>allocated := Suc (allocated w)\<rparr>)
      | Some ev \<Rightarrow>
          (let w1 = w\<lparr>evaluations := evaluations w @ [(name, matcherArg)]\<rparr> in
           case ev contextForEval of
             Throws t \<Rightarrow>
               (Launched (errAsync (MatcherEvaluationError (allocated w1) name
                            (segmentName_or_unknown ctx) (params ctx) (to_Error t))),
                w1\<lparr>allocated := Suc (allocated w1)\<rparr>)
           | Returns tick b \<Rightarrow>
               (let resultAsync = Done tick (Inr b)
                in (Launched resultAsync, w1\<lparr>cache := (cache w1)(key \<mapsto> resultAsync)\<rparr>))
           | Rejects tick t \<Rightarrow>
               (let resultAsync = Done tick (Inl (MatcherEvaluationError (allocated w1) name
                                     (segmentName_or_unknown ctx) (params ctx) (to_Error t)))
                in (Launched resultAsync,
                    w1\<lparr>cache := (cache w1)(key \<mapsto> resultAsync), allocated := Suc (allocated w1)\<rparr>))))"

text \<open>Batch mode: the coalescer of this matcher (and argument) in the batch context is
  created if the lookup finds nothing, the request is loaded, and the future of the promise
  is cached. When the lookup finds something that is not a coalescer, the call of its
  \<^verbatim>\<open>load\<close> throws a \<^verbatim>\<open>TypeError\<close>.\<close>

definition evaluate_batch ::
  "(jsval list \<Rightarrow> batch_behaviour) \<Rightarrow> string \<Rightarrow> string \<Rightarrow> jsval \<Rightarrow> eval_context \<Rightarrow> world \<Rightarrow> fut launch \<times> world" where
  "evaluate_batch evb loaderKey key contextForBatch ctx w =
     (if \<not> hasBatchContext ctx
      then (Threw (ThrownError (Error ''batchContext is required for batch matchers'')), w)
      else
        (let bc1 = (case bc_get (batchContext w) loaderKey of
                      Absent \<Rightarrow> bc_update loaderKey (Loader (new_DataLoader evb)) (batchContext w)
                    | _ \<Rightarrow> batchContext w)
         in case bc_get bc1 loaderKey of
              Own (Loader dataLoader) \<Rightarrow>
                (let (p, dl', ps') = DataLoader_load contextForBatch dataLoader (promises w);
                     resultAsync = Await p
                 in (Launched resultAsync,
                     w\<lparr>batchContext := bc_update loaderKey (Loader dl') bc1,
                       promises := ps',
                       microtasks := (if dl_scheduled dl' \<and> \<not> dl_scheduled dataLoader
                                      then microtasks w @ [loaderKey] else microtasks w),
                       cache := (cache w)(key \<mapsto> resultAsync)\<rparr>))
            | _ \<Rightarrow> (Threw (ThrownError (Error ''dataLoader.load is not a function'')),
                    w\<lparr>batchContext := bc1\<rparr>)))"

text \<open>\<^verbatim>\<open>_evaluateInternal\<close> of a wrapped matcher, in its four shapes.\<close>

definition evaluateInternal_wrapped ::
  "string \<Rightarrow> matcher_config \<Rightarrow> jsval \<Rightarrow> eval_context \<Rightarrow> world \<Rightarrow> fut launch \<times> world" where
  "evaluateInternal_wrapped name matcherObj matcherArg ctx w =
     (case arguments matcherObj of
        Some matcherSchema \<Rightarrow>
          (let key = makeMatcherCacheKey name matcherArg in
           case cache w key of
             Some cached \<Rightarrow> (Launched cached, w)
           | None \<Rightarrow>
               (case validate_argument matcherSchema name matcherArg ctx w of
                  (Threw t, w1) \<Rightarrow> (Threw t, w1)
                | (Launched (Inl e), w1) \<Rightarrow> (Launched e, w1)
                | (Launched (Inr v), w1) \<Rightarrow>
                    (case evaluateBatch matcherObj of
                       Some evb \<Rightarrow>
                         evaluate_batch evb (name @ '':'' @ ToString (stableStringify matcherArg)) key
                           (context_object (params ctx) (Some v) (segmentName ctx)) ctx w1
                     | None \<Rightarrow>
                         evaluate_single name matcherObj matcherArg key
                           (context_object (params ctx) (Some v) (segmentName ctx)) ctx w1)))
      | None \<Rightarrow>
          (let key = makeMatcherCacheKey name JUndefined in
           case cache w key of
             Some cached \<Rightarrow> (Launched cached, w)
           | None \<Rightarrow>
               (case evaluateBatch matcherObj of
                  Some evb \<Rightarrow>
                    evaluate_batch evb name key
                      (context_object (params ctx) None (segmentName ctx)) ctx w
                | None \<Rightarrow>
                    evaluate_single name matcherObj JUndefined key
                      (context_object (params ctx) None (segmentName ctx)) ctx w)))"

text \<open>
  \<^verbatim>\<open>_evaluateInternal\<close> of any definition. An operator calls the entry points of its
  operands one after the other, synchronously (\<open>evaluateInternal_all\<close> is
  \<^verbatim>\<open>matchers.map((m) => m._evaluateInternal(context))\<close>); a throw among them ends the
  \<^verbatim>\<open>map\<close> and becomes the operator's error.
\<close>

fun evaluateInternal :: "mdef \<Rightarrow> eval_context \<Rightarrow> world \<Rightarrow> fut launch \<times> world"
  and evaluateInternal_all :: "mdef list \<Rightarrow> eval_context \<Rightarrow> world \<Rightarrow> fut list launch \<times> world" where
  "evaluateInternal (Wrapped name matcherObj matcherArg) ctx w =
     evaluateInternal_wrapped name matcherObj matcherArg ctx w"
| "evaluateInternal (AndDef ms) ctx w =
     (case evaluateInternal_all ms ctx w of
        (Threw t, w') \<Rightarrow> (Launched (errAsync (to_Error t)), w')
      | (Launched fs, w') \<Rightarrow> (Launched (AllAnd fs), w'))"
| "evaluateInternal (OrDef ms) ctx w =
     (case evaluateInternal_all ms ctx w of
        (Threw t, w') \<Rightarrow> (Launched (errAsync (to_Error t)), w')
      | (Launched fs, w') \<Rightarrow> (Launched (AllOr fs), w'))"
| "evaluateInternal (NotDef m) ctx w =
     (case evaluateInternal m ctx w of
        (Threw t, w') \<Rightarrow> (Launched (errAsync (to_Error t)), w')
      | (Launched f, w') \<Rightarrow> (Launched (Negate f), w'))"
| "evaluateInternal_all [] ctx w = (Launched [], w)"
| "evaluateInternal_all (m # ms) ctx w =
     (case evaluateInternal m ctx w of
        (Threw t, w') \<Rightarrow> (Threw t, w')
      | (Launched f, w') \<Rightarrow>
          (case evaluateInternal_all ms ctx w' of
             (Threw t, w'') \<Rightarrow> (Threw t, w'')
           | (Launched fs, w'') \<Rightarrow> (Launched (f # fs), w'')))"

text \<open>What a future settles to, if it settles: the tick and the \<^verbatim>\<open>Result\<close>.
  \<^verbatim>\<open>Promise.all\<close> settles when all operands have; the loop over the results throws the
  first error it meets.\<close>

fun first_error :: "(nat \<times> (err + bool)) list \<Rightarrow> err option" where
  "first_error [] = None"
| "first_error ((t, Inl e) # rs) = Some e"
| "first_error ((t, Inr b) # rs) = first_error rs"

definition unwrapOr_false :: "err + bool \<Rightarrow> bool" where
  "unwrapOr_false r = (case r of Inl e \<Rightarrow> False | Inr b \<Rightarrow> b)"

definition latest :: "(nat \<times> (err + bool)) list \<Rightarrow> nat" where
  "latest rs = foldr max (map fst rs) 0"

fun settle :: "pstore \<Rightarrow> fut \<Rightarrow> (nat \<times> (err + bool)) option"
  and settle_all :: "pstore \<Rightarrow> fut list \<Rightarrow> (nat \<times> (err + bool)) list option" where
  "settle ps (Done t r) = Some (t, r)"
| "settle ps (Await p) = (case settled ps p of None \<Rightarrow> None | Some (t, b) \<Rightarrow> Some (t, Inr b))"
| "settle ps (AllAnd fs) =
     (case settle_all ps fs of
        None \<Rightarrow> None
      | Some rs \<Rightarrow>
          Some (latest rs,
                case first_error rs of
                  Some e \<Rightarrow> Inl e
                | None \<Rightarrow> Inr (list_all (\<lambda>r. unwrapOr_false (snd r)) rs)))"
| "settle ps (AllOr fs) =
     (case settle_all ps fs of
        None \<Rightarrow> None
      | Some rs \<Rightarrow>
          Some (latest rs,
                case first_error rs of
                  Some e \<Rightarrow> Inl e
                | None \<Rightarrow> Inr (list_ex (\<lambda>r. unwrapOr_false (snd r)) rs)))"
| "settle ps (Negate f) =
     (case settle ps f of
        None \<Rightarrow> None
      | Some (t, Inl e) \<Rightarrow> Some (t, Inl e)
      | Some (t, Inr b) \<Rightarrow> Some (t, Inr (\<not> b)))"
| "settle_all ps [] = Some []"
| "settle_all ps (f # fs) =
     (case settle ps f of
        None \<Rightarrow> None
      | Some r \<Rightarrow> (case settle_all ps fs of None \<Rightarrow> None | Some rs \<Rightarrow> Some (r # rs)))"

text \<open>The batch contexts that arise: the wrapped matchers store coalescers only.\<close>

definition loaders_only :: "world \<Rightarrow> bool" where
  "loaders_only w = (\<forall>k q. map_of (batchContext w) k \<noteq> Some (Queue q))"

text \<open>\<open>world_at ms ctx w i\<close> is the state in which operand \<open>i\<close> of the operands \<open>ms\<close> is
  launched, when the operands are launched one after the other, in their order, from \<open>w\<close>;
  at \<open>i = length ms\<close> it is the state after the last launch.\<close>

fun world_at :: "mdef list \<Rightarrow> eval_context \<Rightarrow> world \<Rightarrow> nat \<Rightarrow> world" where
  "world_at ms ctx w 0 = w"
| "world_at [] ctx w (Suc i) = w"
| "world_at (m # ms) ctx w (Suc i) = world_at ms ctx (snd (evaluateInternal m ctx w)) i"

text \<open>Not from the code: the failure that is first in completion order, as claim C7 words
  it. Among the failed results it is the one with the least tick (the earlier operand
  when two fail at the same tick).\<close>

definition first_error_by_completion :: "(nat \<times> (err + bool)) list \<Rightarrow> err option" where
  "first_error_by_completion rs = first_error (sort_key fst rs)"

section \<open>The wrapped factories and their memo tables (wrapMatchers.ts)\<close>

text \<open>
  \<open>wrapMatchers\<close> gives every matcher a factory that closes over a memo table (argument key
  to definition) or over one variable holding the singleton. The definitions are objects:
  a reference is a number, the heap gives the object and whether it is frozen.
  \<open>call_factory name matcherObj matcherArg\<close> is a call of the factory of matcher \<open>name\<close>.
\<close>

record factories =
  memo :: "string \<Rightarrow> string option \<rightharpoonup> nat"
  singleton :: "string \<rightharpoonup> nat"
  heap :: "nat \<rightharpoonup> (mdef \<times> bool)"
  next_ref :: nat


definition call_factory :: "string \<Rightarrow> matcher_config \<Rightarrow> jsval \<Rightarrow> factories \<Rightarrow> nat \<times> factories" where
  "call_factory name matcherObj matcherArg st =
     (if arguments matcherObj \<noteq> None then
        (let argKey = stableStringify matcherArg in
         case memo st name argKey of
           Some matcher \<Rightarrow> (matcher, st)
         | None \<Rightarrow>
             (let matcher = next_ref st
              in (matcher,
                  st\<lparr>heap := (heap st)(matcher \<mapsto> (Wrapped name matcherObj matcherArg, True)),
                     memo := (memo st)(name := (memo st name)(argKey \<mapsto> matcher)),
                     next_ref := Suc matcher\<rparr>)))
      else
        (case singleton st name of
           Some matcher \<Rightarrow> (matcher, st)
         | None \<Rightarrow>
             (let matcher = next_ref st
              in (matcher,
                  st\<lparr>heap := (heap st)(matcher \<mapsto> (Wrapped name matcherObj JUndefined, False)),
                     singleton := (singleton st)(name \<mapsto> matcher),
                     next_ref := Suc matcher\<rparr>))))"


section \<open>Flushing the batch queues (wrapMatchers.ts)\<close>

text \<open>
  \<open>flushAllBatchQueues batchContext matchers\<close>: \<open>matchers name\<close> is the \<^verbatim>\<open>evaluateBatch\<close> function
  of \<^verbatim>\<open>matchers[name]\<close>, \<open>None\<close> when that object is missing or has no such function.
  In the \<^verbatim>\<open>catch\<close> block every resolver of the queue is called with \<^verbatim>\<open>false\<close>.
\<close>

fun resolve_false :: "nat \<Rightarrow> (jsval \<times> nat) list \<Rightarrow> pstore \<Rightarrow> pstore" where
  "resolve_false t [] ps = ps"
| "resolve_false t (e # q) ps = resolve_false t q (resolve (snd e) (t, False) ps)"

definition flush_queue :: "(string \<Rightarrow> (jsval list \<Rightarrow> batch_behaviour) option) \<Rightarrow> string \<Rightarrow> world \<Rightarrow> world" where
  "flush_queue matchers name w =
     (case map_of (batchContext w) name of
        Some (Queue queue) \<Rightarrow>
          (if length queue > 0 then
             (let w1 = w\<lparr>batchContext := bc_update name (Queue []) (batchContext w)\<rparr> in
              case matchers name of
                Some evb \<Rightarrow>
                  (let b = evb (map fst queue);
                       w2 = w1\<lparr>batchEvaluations := batchEvaluations w1 @ [map fst queue],
                               promises := resolve_all queue (resolutions b) (promises w1)\<rparr>
                   in case failure b of
                        None \<Rightarrow> w2
                      | Some (t, e) \<Rightarrow> w2\<lparr>promises := resolve_false t queue (promises w2)\<rparr>)
              | None \<Rightarrow> w1)
           else w)
      | _ \<Rightarrow> w)"

definition flushAllBatchQueues :: "(string \<Rightarrow> (jsval list \<Rightarrow> batch_behaviour) option) \<Rightarrow> world \<Rightarrow> world" where
  "flushAllBatchQueues matchers w = fold (flush_queue matchers) (map fst (batchContext w)) w"

section \<open>The segment evaluator (segment.ts)\<close>

text \<open>
  A segment definition (named or ad hoc) is a function of the subject that returns a
  matcher definition or throws. The logger, the tracer and the error observer are taken
  not to throw; the spans are left out. \<open>onError_configured\<close> says whether an error observer was given.
  The result of \<^verbatim>\<open>matches()\<close> is the state of the promise it returns.
\<close>

datatype build = Builds mdef | BuildThrows thrown

datatype segment_ref = Named string | AdHoc "jsval \<Rightarrow> build"

datatype fallback_behaviour = FallbackReturns bool | FallbackThrows thrown

datatype 'a promise_state = Resolved 'a | Rejected thrown | Pending

record evaluator_config =
  segmentsObj :: "string \<rightharpoonup> (jsval \<Rightarrow> build)"
  onError_configured :: bool

text \<open>The microtasks that run when \<^verbatim>\<open>matches()\<close> awaits: the scheduled flushes.\<close>

definition run_flush :: "string \<Rightarrow> world \<Rightarrow> world" where
  "run_flush loaderKey w =
     (case map_of (batchContext w) loaderKey of
        Some (Loader dl) \<Rightarrow>
          (let (dl', ps', invocations, res) = DataLoader_flush dl (promises w)
           in w\<lparr>batchContext := bc_update loaderKey (Loader dl') (batchContext w),
                 promises := ps',
                 batchEvaluations := batchEvaluations w @ map (map fst) invocations\<rparr>)
      | _ \<Rightarrow> w)"

definition run_microtasks :: "world \<Rightarrow> world" where
  "run_microtasks w = (fold run_flush (microtasks w) w)\<lparr>microtasks := []\<rparr>"

text \<open>\<^verbatim>\<open>wrappedMatchers[name]\<close> is a factory function or missing: it has no \<^verbatim>\<open>evaluateBatch\<close>.\<close>

definition wrappedMatchers_evaluateBatch :: "string \<Rightarrow> (jsval list \<Rightarrow> batch_behaviour) option" where
  "wrappedMatchers_evaluateBatch name = None"

text \<open>\<^verbatim>\<open>"evaluateBatch" in matcherDefinition\<close>: the definitions of matchers without argument
  schema always have the property, those with a schema only in batch mode.\<close>

definition isBatchMatcher :: "mdef \<Rightarrow> bool" where
  "isBatchMatcher d =
     (case d of
        Wrapped name matcherObj matcherArg \<Rightarrow>
          (if arguments matcherObj \<noteq> None then evaluateBatch matcherObj \<noteq> None else True)
      | _ \<Rightarrow> False)"

text \<open>The fallback: its boolean, or \<^verbatim>\<open>false\<close> (and a logged error) when it throws or rejects,
  or \<^verbatim>\<open>false\<close> when there is none.\<close>

definition run_fallback :: "(err list \<Rightarrow> fallback_behaviour) option \<Rightarrow> err \<Rightarrow> world \<Rightarrow> bool \<times> world" where
  "run_fallback onErrorFallback e w =
     (case onErrorFallback of
        None \<Rightarrow> (False, w)
      | Some fb \<Rightarrow>
          (case fb [e] of
             FallbackReturns b \<Rightarrow> (b, w)
           | FallbackThrows t \<Rightarrow> (False, w\<lparr>logged := logged w @ [to_Error t]\<rparr>)))"

definition observe :: "evaluator_config \<Rightarrow> err \<Rightarrow> observer_context \<Rightarrow> world \<Rightarrow> world" where
  "observe cfg e oc w =
     (if onError_configured cfg then w\<lparr>observed := observed w @ [(e, oc)]\<rparr> else w)"

text \<open>\<^verbatim>\<open>logger.error(err); if (onError) onError(err, context);\<close> and then the fallback.\<close>

definition fail ::
  "evaluator_config \<Rightarrow> (err list \<Rightarrow> fallback_behaviour) option \<Rightarrow> err \<Rightarrow> observer_context \<Rightarrow> world
   \<Rightarrow> bool promise_state \<times> world" where
  "fail cfg onErrorFallback e oc w =
     (let (b, w') = run_fallback onErrorFallback e (observe cfg e oc (w\<lparr>logged := logged w @ [e]\<rparr>))
      in (Resolved b, w'))"

text \<open>A call starts with an empty batch context and an empty matcher cache.\<close>

definition new_call :: "world \<Rightarrow> world" where
  "new_call w = w\<lparr>cache := Map.empty, batchContext := [], microtasks := []\<rparr>"

definition matches_adhoc ::
  "evaluator_config \<Rightarrow> jsval \<Rightarrow> (jsval \<Rightarrow> build) \<Rightarrow> (err list \<Rightarrow> fallback_behaviour) option \<Rightarrow> world
   \<Rightarrow> bool promise_state \<times> world" where
  "matches_adhoc cfg subject segmentFn onErrorFallback w0 =
     (let w = new_call w0;
          oc = ObserverContext None None subject in
      case segmentFn subject of
        BuildThrows t \<Rightarrow> fail cfg onErrorFallback (to_Error t) oc w
      | Builds matcherDefinition \<Rightarrow>
          (case evaluateInternal matcherDefinition
                  \<lparr>params = subject, segmentName = None, hasBatchContext = True\<rparr> w of
             (Threw t, w1) \<Rightarrow> fail cfg onErrorFallback (to_Error t) oc w1
           | (Launched resultPromise, w1) \<Rightarrow>
               (let w2 = (if isBatchMatcher matcherDefinition
                          then flushAllBatchQueues wrappedMatchers_evaluateBatch w1 else w1);
                    w3 = run_microtasks w2 in
                case settle (promises w3) resultPromise of
                  None \<Rightarrow> (Pending, w3)
                | Some (t, matcherResult) \<Rightarrow>
                    (let w4 = flushAllBatchQueues wrappedMatchers_evaluateBatch w3 in
                     case matcherResult of
                       Inl e \<Rightarrow> fail cfg onErrorFallback e oc w4
                     | Inr b \<Rightarrow> (Resolved b, w4)))))"

text \<open>The named path wraps the root definition: the wrapper reports an error of the root
  to the observer with the matcher's name, and passes the error on.\<close>

definition root_matcherName :: "mdef \<Rightarrow> string" where
  "root_matcherName d = (case toNode d of MatcherN name args \<Rightarrow> name | _ \<Rightarrow> ''unknown'')"

definition matches_named ::
  "evaluator_config \<Rightarrow> jsval \<Rightarrow> string \<Rightarrow> (err list \<Rightarrow> fallback_behaviour) option \<Rightarrow> world
   \<Rightarrow> bool promise_state \<times> world" where
  "matches_named cfg subject name onErrorFallback w0 =
     (let w = new_call w0 in
      case segmentsObj cfg name of
        None \<Rightarrow>
          (let (b, w') = run_fallback onErrorFallback
                           (Error (''Segment definition not found: '' @ name)) w
           in (Resolved b, w'))
      | Some segmentDefinition \<Rightarrow>
          (let oc = ObserverContext None (Some name) subject in
           case segmentDefinition subject of
             BuildThrows t \<Rightarrow> fail cfg onErrorFallback (to_Error t) oc w
           | Builds matcherDefinition \<Rightarrow>
               (let moc = ObserverContext (Some (root_matcherName matcherDefinition)) (Some name) subject in
                case evaluateInternal matcherDefinition
                       \<lparr>params = subject, segmentName = Some name, hasBatchContext = True\<rparr> w of
                  (Threw t, w1) \<Rightarrow>
                    (let w2 = (case t of ThrownError e \<Rightarrow> observe cfg e moc w1 | ThrownValue v \<Rightarrow> w1);
                         w3 = flushAllBatchQueues wrappedMatchers_evaluateBatch (run_microtasks w2)
                     in fail cfg onErrorFallback (to_Error t) oc w3)
                | (Launched f, w1) \<Rightarrow>
                    (let w2 = run_microtasks w1 in
                     case settle (promises w2) f of
                       None \<Rightarrow> (Pending, w2)
                     | Some (t, Inr b) \<Rightarrow>
                         (Resolved b, flushAllBatchQueues wrappedMatchers_evaluateBatch w2)
                     | Some (t, Inl e) \<Rightarrow>
                         fail cfg onErrorFallback e oc
                           (flushAllBatchQueues wrappedMatchers_evaluateBatch (observe cfg e moc w2))))))"

definition matches ::
  "evaluator_config \<Rightarrow> jsval \<Rightarrow> segment_ref \<Rightarrow> (err list \<Rightarrow> fallback_behaviour) option \<Rightarrow> world
   \<Rightarrow> bool promise_state \<times> world" where
  "matches cfg subject segmentNameOrFn onErrorFallback w =
     (case segmentNameOrFn of
        AdHoc segmentFn \<Rightarrow> matches_adhoc cfg subject segmentFn onErrorFallback w
      | Named name \<Rightarrow> matches_named cfg subject name onErrorFallback w)"

definition initial_world :: world where
  "initial_world =
     \<lparr>cache = Map.empty, batchContext = [], microtasks = [],
      promises = \<lparr>next_promise = 0, settled = Map.empty\<rparr>, allocated = 0,
      validations = [], evaluations = [], batchEvaluations = [], logged = [], observed = []\<rparr>"

text \<open>
  Notions for stating what \<^verbatim>\<open>matches()\<close> does. \<open>evaluation_result d ctx w\<close> is what the result of
  the root definition settles to in a call that starts in \<open>w\<close>, once the scheduled flushes
  have run; \<open>None\<close> when it never settles. \<open>fallback_value\<close> and \<open>fallback_log\<close> say what a
  failure resolves to and what the fallback adds to the log: the fallback's boolean and
  nothing, or \<^verbatim>\<open>false\<close> and the fallback's own error, or \<^verbatim>\<open>false\<close> and nothing without fallback.
\<close>

definition evaluation_result :: "mdef \<Rightarrow> eval_context \<Rightarrow> world \<Rightarrow> (nat \<times> (err + bool)) option" where
  "evaluation_result d ctx w =
     (case evaluateInternal d ctx w of
        (Threw t, w1) \<Rightarrow> Some (0, Inl (to_Error t))
      | (Launched f, w1) \<Rightarrow> settle (promises (run_microtasks w1)) f)"

text \<open>\<open>root_threw_value d ctx w\<close>: the entry point of the root definition threw, synchronously,
  a value that is not an \<^verbatim>\<open>Error\<close>. The wrapper of the named path reports to the observer only
  what is an \<^verbatim>\<open>Error\<close>.\<close>

definition root_threw_value :: "mdef \<Rightarrow> eval_context \<Rightarrow> world \<Rightarrow> bool" where
  "root_threw_value d ctx w =
     (case fst (evaluateInternal d ctx w) of
        Threw (ThrownValue v) \<Rightarrow> True
      | _ \<Rightarrow> False)"

definition fallback_value :: "(err list \<Rightarrow> fallback_behaviour) option \<Rightarrow> err \<Rightarrow> bool" where
  "fallback_value onErrorFallback e =
     (case onErrorFallback of
        None \<Rightarrow> False
      | Some fb \<Rightarrow> (case fb [e] of FallbackReturns b \<Rightarrow> b | FallbackThrows t \<Rightarrow> False))"

definition fallback_log :: "(err list \<Rightarrow> fallback_behaviour) option \<Rightarrow> err \<Rightarrow> err list" where
  "fallback_log onErrorFallback e =
     (case onErrorFallback of
        None \<Rightarrow> []
      | Some fb \<Rightarrow> (case fb [e] of FallbackReturns b \<Rightarrow> [] | FallbackThrows t \<Rightarrow> [to_Error t]))"

definition call_context :: "jsval \<Rightarrow> string option \<Rightarrow> eval_context" where
  "call_context subject name = \<lparr>params = subject, segmentName = name, hasBatchContext = True\<rparr>"

text \<open>
  Notions for stating the caching claims. The references of a definition are the wrapped
  matchers at its leaves, with repetitions. \<open>leaf_key\<close> is the cache key a reference
  uses. \<open>count_key k\<close> counts the evaluator calls recorded for matchers and arguments with
  cache key \<open>k\<close>. A reference \<open>dispatches\<close> when it is in single evaluate mode, its bound
  argument passes the schema (if there is one) and its evaluator does not throw
  synchronously on the context it then receives. The entry point of a reference certainly
  returns a future (\<open>launches\<close>) when its schema does not throw on the bound argument and,
  for a batched matcher without schema, its name (the loader key) is not the name of a
  member of \<^verbatim>\<open>Object.prototype\<close>.
\<close>

fun leaves :: "mdef \<Rightarrow> (string \<times> matcher_config \<times> jsval) list" where
  "leaves (Wrapped name matcherObj matcherArg) = [(name, matcherObj, matcherArg)]"
| "leaves (AndDef ms) = concat (map leaves ms)"
| "leaves (OrDef ms) = concat (map leaves ms)"
| "leaves (NotDef m) = leaves m"

definition leaf_key :: "string \<times> matcher_config \<times> jsval \<Rightarrow> string" where
  "leaf_key l =
     (case l of (name, matcherObj, matcherArg) \<Rightarrow>
        makeMatcherCacheKey name (if arguments matcherObj = None then JUndefined else matcherArg))"

definition launches :: "string \<times> matcher_config \<times> jsval \<Rightarrow> bool" where
  "launches l =
     (case l of (name, matcherObj, matcherArg) \<Rightarrow>
        (case arguments matcherObj of
           Some matcherSchema \<Rightarrow> (\<forall>t. matcherSchema matcherArg \<noteq> ValidateThrows t)
         | None \<Rightarrow> evaluateBatch matcherObj = None \<or> name \<notin> set Object_prototype))"

definition count_key :: "string \<Rightarrow> (string \<times> jsval) list \<Rightarrow> nat" where
  "count_key k evs = length (filter (\<lambda>e. makeMatcherCacheKey (fst e) (snd e) = k) evs)"

definition dispatches :: "eval_context \<Rightarrow> string \<times> matcher_config \<times> jsval \<Rightarrow> bool" where
  "dispatches ctx l =
     (case l of (name, matcherObj, matcherArg) \<Rightarrow>
        evaluateBatch matcherObj = None \<and>
        (\<exists>ev. evaluate matcherObj = Some ev \<and>
           (case arguments matcherObj of
              None \<Rightarrow> \<forall>t. ev (context_object (params ctx) None (segmentName ctx)) \<noteq> Throws t
            | Some matcherSchema \<Rightarrow>
                \<exists>v. matcherSchema matcherArg = Value v \<and>
                    (\<forall>t. ev (context_object (params ctx) (Some v) (segmentName ctx)) \<noteq> Throws t))))"

text \<open>
  \<open>built\<close> gives the definition a segment builds for a subject together with the context its
  evaluation receives, when the segment is registered (or given ad hoc) and its builder
  returns. \<open>once c k\<close> is the invariant of a call for the cache key \<open>k\<close>: either nothing is
  cached under \<open>k\<close> and the evaluator calls recorded for \<open>k\<close> are the \<open>c\<close> of before the call,
  or something is cached and there is one more.
\<close>

definition built :: "evaluator_config \<Rightarrow> segment_ref \<Rightarrow> jsval \<Rightarrow> (mdef \<times> eval_context) option" where
  "built cfg segmentNameOrFn subject =
     (case segmentNameOrFn of
        AdHoc segmentFn \<Rightarrow>
          (case segmentFn subject of
             Builds d \<Rightarrow> Some (d, call_context subject None)
           | BuildThrows t \<Rightarrow> None)
      | Named name \<Rightarrow>
          (case segmentsObj cfg name of
             None \<Rightarrow> None
           | Some segmentFn \<Rightarrow>
               (case segmentFn subject of
                  Builds d \<Rightarrow> Some (d, call_context subject (Some name))
                | BuildThrows t \<Rightarrow> None)))"

definition once :: "nat \<Rightarrow> string \<Rightarrow> world \<Rightarrow> bool" where
  "once c k w =
     ((cache w k = None \<and> count_key k (evaluations w) = c) \<or>
      (cache w k \<noteq> None \<and> count_key k (evaluations w) = Suc c))"

definition launched_once ::
  "nat \<Rightarrow> string \<Rightarrow> (string \<times> matcher_config \<times> jsval) list \<Rightarrow> world \<Rightarrow> world \<Rightarrow> bool" where
  "launched_once c k ls w w' =
     (loaders_only w' \<and> once c k w' \<and>
      (k \<in> leaf_key ` set ls \<or> cache w k \<noteq> None \<longrightarrow> cache w' k \<noteq> None))"

section \<open>Example configurations\<close>

text \<open>Matchers used to instantiate the theorems below: \<open>always b\<close> has no argument schema and
  evaluates to \<open>b\<close>; \<open>number_matcher\<close> takes a number; \<open>thrower\<close> throws synchronously;
  \<open>rejecter t\<close> rejects at tick \<open>t\<close>; \<open>batch_thrower\<close> is a batched matcher whose evaluator
  throws; \<open>batch_always b\<close> is a batched matcher whose evaluator resolves every request to
  \<open>b\<close>; the schema of \<open>schema_thrower\<close> throws.\<close>

definition always :: "bool \<Rightarrow> matcher_config" where
  "always b = \<lparr>arguments = None, evaluate = Some (\<lambda>c. Returns 0 b), evaluateBatch = None,
               config_toNode = None\<rparr>"

definition number_schema :: "jsval \<Rightarrow> validation" where
  "number_schema v = (case v of JNum i \<Rightarrow> Value v | _ \<Rightarrow> Issues [''expected a number''])"

definition number_matcher :: matcher_config where
  "number_matcher = \<lparr>arguments = Some number_schema, evaluate = Some (\<lambda>c. Returns 0 True),
                      evaluateBatch = None, config_toNode = None\<rparr>"

definition thrower :: matcher_config where
  "thrower = \<lparr>arguments = None, evaluate = Some (\<lambda>c. Throws (ThrownError (Error ''fail''))),
               evaluateBatch = None, config_toNode = None\<rparr>"

definition rejecter :: "nat \<Rightarrow> matcher_config" where
  "rejecter t = \<lparr>arguments = None, evaluate = Some (\<lambda>c. Rejects t (ThrownError (Error ''fail''))),
                  evaluateBatch = None, config_toNode = None\<rparr>"

definition batch_thrower :: matcher_config where
  "batch_thrower =
     \<lparr>arguments = None, evaluate = None,
      evaluateBatch = Some (\<lambda>cs. \<lparr>resolutions = [], failure = Some (0, ThrownError (Error ''fail''))\<rparr>),
      config_toNode = None\<rparr>"

definition batch_always :: "bool \<Rightarrow> matcher_config" where
  "batch_always b =
     \<lparr>arguments = None, evaluate = None,
      evaluateBatch = Some (\<lambda>cs. \<lparr>resolutions = map (\<lambda>c. Some (0, b)) cs, failure = None\<rparr>),
      config_toNode = None\<rparr>"

definition throwing_schema :: "jsval \<Rightarrow> validation" where
  "throwing_schema v = ValidateThrows (ThrownError (Error ''invalid''))"

definition schema_thrower :: matcher_config where
  "schema_thrower = \<lparr>arguments = Some throwing_schema, evaluate = Some (\<lambda>c. Returns 0 True),
                      evaluateBatch = None, config_toNode = None\<rparr>"

definition in_segment :: "string \<Rightarrow> eval_context" where
  "in_segment name = \<lparr>params = JObj [], segmentName = Some name, hasBatchContext = True\<rparr>"

definition T :: mdef where
  "T = Wrapped ''T'' (always True) JUndefined"

definition F :: mdef where
  "F = Wrapped ''F'' (always False) JUndefined"

definition adhoc :: "mdef \<Rightarrow> segment_ref" where
  "adhoc d = AdHoc (\<lambda>subject. Builds d)"

section \<open>Cache keys: \<open>stableStringify\<close> and \<open>makeMatcherCacheKey\<close>\<close>

subsection \<open>Deeply equal values print alike\<close>

lemma sort_eq_of_set_eq:
  fixes xs ys :: "'a::linorder list"
  shows "distinct xs \<Longrightarrow> distinct ys \<Longrightarrow> set xs = set ys \<Longrightarrow> sort xs = sort ys"
  by (intro sorted_distinct_set_unique) auto

lemma deep_eq_stable:
  "wf_obj a \<Longrightarrow> wf_obj b \<Longrightarrow> deep_eq a b \<Longrightarrow> stableStringify a = stableStringify b"
proof (induction a b rule: deep_eq.induct)
  case (1 xs ys)
  have "map stableStringify xs = map stableStringify ys"
    using 1 by (auto simp: list_all2_conv_all_nth intro!: nth_equalityI)
  then show ?case by simp
next
  case (2 xs ys)
  have dx: "distinct (map fst xs)" and dy: "distinct (map fst ys)"
    using 2(2,3) by simp_all
  have keys: "sort (Object_keys xs) = sort (Object_keys ys)"
    unfolding Object_keys_def using 2(4) dx dy by (intro sort_eq_of_set_eq) simp_all
  have vals: "(case map_of xs k of None \<Rightarrow> None | Some v \<Rightarrow> stableStringify v) =
              (case map_of ys k of None \<Rightarrow> None | Some v \<Rightarrow> stableStringify v)"
    if "k \<in> set (map fst ys)" for k
  proof -
    from that obtain w where w: "map_of ys k = Some w"
      by (metis map_of_eq_None_iff not_Some_eq set_map)
    from that 2(4) have "k \<in> set (map fst xs)" by simp
    then obtain v where v: "map_of xs k = Some v"
      by (metis map_of_eq_None_iff not_Some_eq set_map)
    have inx: "(k, v) \<in> set xs" and iny: "(k, w) \<in> set ys"
      using v w by (auto dest: map_of_SomeD)
    have "wf_obj v" "wf_obj w" "deep_eq v w"
      using inx iny 2(2,3,4) by auto
    then have "stableStringify v = stableStringify w"
      using "2.IH" [OF inx refl iny refl refl] by simp
    then show ?thesis by (simp add: v w)
  qed
  have "map (\<lambda>k. Some (json_quote k @ CHR '':'' #
                ToString (case map_of xs k of None \<Rightarrow> None | Some v \<Rightarrow> stableStringify v)))
           (sort (Object_keys xs)) =
        map (\<lambda>k. Some (json_quote k @ CHR '':'' #
                ToString (case map_of ys k of None \<Rightarrow> None | Some v \<Rightarrow> stableStringify v)))
           (sort (Object_keys ys))"
    unfolding keys by (rule map_cong [OF refl]) (simp add: vals Object_keys_def)
  then show ?case by simp
qed simp_all

lemma span_unique:
  assumes "\<forall>x\<in>set s. P x" "\<forall>x\<in>set t. P x"
    and "r = [] \<or> \<not> P (hd r)" "r' = [] \<or> \<not> P (hd r')"
    and "s @ r = t @ r'"
  shows "s = t \<and> r = r'"
proof -
  have a: "takeWhile P (s @ r) = s"
    using assms(1,3) by (cases r) (simp_all add: takeWhile_append2)
  have b: "takeWhile P (t @ r') = t"
    using assms(2,4) by (cases r') (simp_all add: takeWhile_append2)
  from a b assms(5) have "s = t" by simp
  with assms(5) show ?thesis by simp
qed

lemma distinct_hex: "distinct ''0123456789abcdef''"
  by simp

lemma digit_char_inj: "a < 16 \<Longrightarrow> b < 16 \<Longrightarrow> digit_char a = digit_char b \<Longrightarrow> a = b"
  unfolding digit_char_def
  using nth_eq_iff_index_eq [OF distinct_hex, of a b] by simp

lemma digit_char_dec: "d < 10 \<Longrightarrow> digit_char d \<in> set ''0123456789''"
proof -
  assume d: "d < 10"
  have t: "take 10 ''0123456789abcdef'' = ''0123456789''" by simp
  have "''0123456789'' ! d \<in> set ''0123456789''"
    by (rule nth_mem) (use d in simp)
  moreover have "''0123456789'' ! d = ''0123456789abcdef'' ! d"
    unfolding t [symmetric] using d by (rule nth_take)
  ultimately show ?thesis unfolding digit_char_def by (simp only:)
qed

lemma set_digits10: "set (digits10 n) \<subseteq> set ''0123456789''"
proof (induction n rule: digits10.induct)
  case (1 n)
  show ?case
  proof (cases "n < 10")
    case True
    then show ?thesis using digit_char_dec [of n] by (subst digits10.simps) simp
  next
    case False
    have "n mod 10 < 10" by simp
    then show ?thesis
      using False 1 digit_char_dec [of "n mod 10"] by (subst digits10.simps) simp
  qed
qed

lemma digits10_nonempty: "digits10 n \<noteq> []" "[] \<noteq> digits10 n"
  by (subst digits10.simps, simp)+

lemma digits10_inj: "digits10 n = digits10 m \<Longrightarrow> n = m"
proof (induction n arbitrary: m rule: digits10.induct)
  case (1 n)
  show ?case
  proof (cases "n < 10")
    case True
    show ?thesis
    proof (cases "m < 10")
      case mt: True
      from "1.prems" True mt have "digit_char n = digit_char m"
        by (simp add: digits10.simps [of n] digits10.simps [of m])
      then show ?thesis using True mt by (intro digit_char_inj) simp_all
    next
      case mf: False
      from "1.prems" True mf show ?thesis
        by (simp add: digits10.simps [of n] digits10.simps [of m] digits10_nonempty)
    qed
  next
    case False
    show ?thesis
    proof (cases "m < 10")
      case mt: True
      from "1.prems" False mt show ?thesis
        by (simp add: digits10.simps [of n] digits10.simps [of m] digits10_nonempty)
    next
      case mf: False
      from "1.prems" False mf
      have e: "digits10 (n div 10) = digits10 (m div 10)"
        and d: "digit_char (n mod 10) = digit_char (m mod 10)"
        by (simp_all add: digits10.simps [of n] digits10.simps [of m])
      from "1.IH" [OF False e] have q: "n div 10 = m div 10" .
      have "n mod 10 = m mod 10"
        by (rule digit_char_inj [OF _ _ d]) simp_all
      note this
      have "n = 10 * (n div 10) + n mod 10" "m = 10 * (m div 10) + m mod 10" by simp_all
      with q \<open>n mod 10 = m mod 10\<close> show ?thesis by simp
    qed
  qed
qed

lemma set_number_to_string: "set (number_to_string i) \<subseteq> set ''0123456789-''"
proof -
  have "set ''0123456789'' \<subseteq> set ''0123456789-''" by simp
  then have "set (digits10 n) \<subseteq> set ''0123456789-''" for n
    using set_digits10 [of n] by (rule order_trans [rotated])
  then show ?thesis by (simp add: number_to_string_def)
qed

lemma number_to_string_nonempty: "number_to_string i \<noteq> []"
  by (simp add: number_to_string_def digits10_nonempty)

lemma number_to_string_inj: "number_to_string i = number_to_string j \<Longrightarrow> i = j"
proof -
  assume e: "number_to_string i = number_to_string j"
  have nodash: "hd (digits10 n) \<noteq> CHR ''-''" for n
  proof -
    have "hd (digits10 n) \<in> set (digits10 n)" by (simp add: digits10_nonempty)
    then have "hd (digits10 n) \<in> set ''0123456789''" using set_digits10 by blast
    then show ?thesis by auto
  qed
  show ?thesis
  proof (cases "i < 0")
    case True
    show ?thesis
    proof (cases "j < 0")
      case jt: True
      from e True jt have "digits10 (nat (- i)) = digits10 (nat (- j))"
        by (simp add: number_to_string_def)
      then have "nat (- i) = nat (- j)" by (rule digits10_inj)
      then show ?thesis using True jt by simp
    next
      case jf: False
      from e have "hd (number_to_string i) = hd (number_to_string j)" by simp
      with True jf have "hd (digits10 (nat j)) = CHR ''-''"
        by (simp add: number_to_string_def)
      then show ?thesis using nodash by simp
    qed
  next
    case False
    show ?thesis
    proof (cases "j < 0")
      case jt: True
      from e have "hd (number_to_string i) = hd (number_to_string j)" by simp
      with False jt have "hd (digits10 (nat i)) = CHR ''-''"
        by (simp add: number_to_string_def)
      then show ?thesis using nodash by simp
    next
      case jf: False
      from e False jf have "digits10 (nat i) = digits10 (nat j)"
        by (simp add: number_to_string_def)
      then have "nat i = nat j" by (rule digits10_inj)
      then show ?thesis using False jf by simp
    qed
  qed
qed

lemma number_delim:
  assumes "number_to_string i @ r = number_to_string j @ r'" "delim r" "delim r'"
  shows "i = j \<and> r = r'"
proof -
  let ?P = "\<lambda>c. c \<in> set ''0123456789-''"
  have "number_to_string i = number_to_string j \<and> r = r'"
  proof (rule span_unique [where P = ?P])
    show "\<forall>x\<in>set (number_to_string i). ?P x" using set_number_to_string by blast
    show "\<forall>x\<in>set (number_to_string j). ?P x" using set_number_to_string by blast
    show "r = [] \<or> \<not> ?P (hd r)" using assms(2) by (auto simp: delim_def)
    show "r' = [] \<or> \<not> ?P (hd r')" using assms(3) by (auto simp: delim_def)
    show "number_to_string i @ r = number_to_string j @ r'" by fact
  qed
  then show ?thesis using number_to_string_inj by blast
qed

lemma of_char_div_mod_eq:
  fixes c d :: char
  assumes "(of_char c :: nat) div 16 = of_char d div 16" "(of_char c :: nat) mod 16 = of_char d mod 16"
  shows "c = d"
proof -
  have "(of_char c :: nat) = 16 * (of_char c div 16) + of_char c mod 16" by simp
  also have "\<dots> = 16 * (of_char d div 16) + of_char d mod 16" using assms by simp
  also have "\<dots> = of_char d" by simp
  finally show ?thesis by simp
qed

lemma json_escape_cases:
  "json_escape c = [c] \<and> c \<noteq> bslash \<and> c \<noteq> dquote
   \<or> (\<exists>x. json_escape c = [bslash, x] \<and> x \<noteq> CHR ''u'')
   \<or> json_escape c = [bslash, CHR ''u'', CHR ''0'', CHR ''0'',
          digit_char (of_char c div 16), digit_char (of_char c mod 16)] \<and> (of_char c :: nat) < 32"
  by (simp add: json_escape_def bslash_def dquote_def)

lemma json_escape_short_inj:
  "json_escape c = [bslash, x] \<Longrightarrow> json_escape d = [bslash, x] \<Longrightarrow> c = d"
  by (auto simp: json_escape_def bslash_def dquote_def split: if_splits)

lemma json_escape_prefix:
  assumes "json_escape c @ r = json_escape d @ r'"
  shows "c = d \<and> r = r'"
proof -
  consider (lit) "json_escape c = [c]" "c \<noteq> bslash" "c \<noteq> dquote"
    | (short) x where "json_escape c = [bslash, x]" "x \<noteq> CHR ''u''"
    | (uni) "json_escape c = [bslash, CHR ''u'', CHR ''0'', CHR ''0'',
          digit_char (of_char c div 16), digit_char (of_char c mod 16)]" "(of_char c :: nat) < 32"
    using json_escape_cases [of c] by blast
  then show ?thesis
  proof cases
    case lit
    consider (lit') "json_escape d = [d]" "d \<noteq> bslash" "d \<noteq> dquote"
      | (short') y where "json_escape d = [bslash, y]" "y \<noteq> CHR ''u''"
      | (uni') "json_escape d = [bslash, CHR ''u'', CHR ''0'', CHR ''0'',
          digit_char (of_char d div 16), digit_char (of_char d mod 16)]" "(of_char d :: nat) < 32"
      using json_escape_cases [of d] by blast
    then show ?thesis using assms lit by cases simp_all
  next
    case short
    consider (lit') "json_escape d = [d]" "d \<noteq> bslash" "d \<noteq> dquote"
      | (short') y where "json_escape d = [bslash, y]" "y \<noteq> CHR ''u''"
      | (uni') "json_escape d = [bslash, CHR ''u'', CHR ''0'', CHR ''0'',
          digit_char (of_char d div 16), digit_char (of_char d mod 16)]" "(of_char d :: nat) < 32"
      using json_escape_cases [of d] by blast
    then show ?thesis
    proof cases
      case lit'
      then show ?thesis using assms short by simp
    next
      case short'
      with assms short have "x = y" "r = r'" by simp_all
      with short short' json_escape_short_inj show ?thesis by blast
    next
      case uni'
      then show ?thesis using assms short by simp
    qed
  next
    case uni
    consider (lit') "json_escape d = [d]" "d \<noteq> bslash" "d \<noteq> dquote"
      | (short') y where "json_escape d = [bslash, y]" "y \<noteq> CHR ''u''"
      | (uni') "json_escape d = [bslash, CHR ''u'', CHR ''0'', CHR ''0'',
          digit_char (of_char d div 16), digit_char (of_char d mod 16)]" "(of_char d :: nat) < 32"
      using json_escape_cases [of d] by blast
    then show ?thesis
    proof cases
      case lit'
      then show ?thesis using assms uni by simp
    next
      case short'
      then show ?thesis using assms uni by simp
    next
      case uni'
      with assms uni have hi: "digit_char (of_char c div 16) = digit_char (of_char d div 16)"
        and lo: "digit_char (of_char c mod 16) = digit_char (of_char d mod 16)"
        and rr: "r = r'" by simp_all
      have "(of_char c :: nat) div 16 = of_char d div 16"
        by (rule digit_char_inj [OF _ _ hi]) (use uni(2) uni'(2) in simp_all)
      moreover have "(of_char c :: nat) mod 16 = of_char d mod 16"
        by (rule digit_char_inj [OF _ _ lo]) simp_all
      ultimately show ?thesis using rr of_char_div_mod_eq by blast
    qed
  qed
qed

lemma json_escape_not_dquote: "json_escape c \<noteq> [] \<and> hd (json_escape c) \<noteq> dquote"
  using json_escape_cases [of c] by (auto simp: bslash_def dquote_def)

lemma escaped_delim:
  "concat (map json_escape s) @ dquote # r = concat (map json_escape t) @ dquote # r'
   \<Longrightarrow> s = t \<and> r = r'"
proof (induction s arbitrary: t)
  case Nil
  show ?case
  proof (cases t)
    case Nil
    with Nil.prems show ?thesis by simp
  next
    case (Cons d t')
    from Nil.prems Cons have "hd (json_escape d @ concat (map json_escape t') @ dquote # r') = dquote"
      by (metis append.assoc concat.simps(2) list.map(2) list.sel(1) self_append_conv2 concat.simps(1) list.map(1))
    then show ?thesis using json_escape_not_dquote [of d] by simp
  qed
next
  case (Cons c s')
  show ?case
  proof (cases t)
    case Nil
    from Cons.prems Nil have "hd (json_escape c @ concat (map json_escape s') @ dquote # r) = dquote"
      by simp
    then show ?thesis using json_escape_not_dquote [of c] by simp
  next
    case (Cons d t')
    from Cons.prems Cons
    have "json_escape c @ (concat (map json_escape s') @ dquote # r) =
          json_escape d @ (concat (map json_escape t') @ dquote # r')" by simp
    then have cd: "c = d"
      and rest: "concat (map json_escape s') @ dquote # r = concat (map json_escape t') @ dquote # r'"
      using json_escape_prefix by blast+
    from Cons.IH [OF rest] cd Cons show ?thesis by simp
  qed
qed

lemma json_quote_delim: "json_quote s @ r = json_quote t @ r' \<Longrightarrow> s = t \<and> r = r'"
  using escaped_delim [of s r t r'] by (simp add: json_quote_def)

lemma enc_simps:
  "enc JNull = ''null''"
  "enc (JBool b) = (if b then ''true'' else ''false'')"
  "enc (JNum i) = number_to_string i"
  "enc (JStr s) = json_quote s"
  "enc (JArr xs) = CHR ''['' # join_comma (map stableStringify xs) @ '']''"
  "enc (JObj kvs) = CHR ''{'' #
       join_comma (map (\<lambda>k. Some (json_quote k @ CHR '':'' #
                      ToString (case map_of kvs k of
                                  None \<Rightarrow> None
                                | Some v \<Rightarrow> stableStringify v)))
                   (sort (Object_keys kvs)))
       @ ''}''"
  by (simp_all add: enc_def ToString_def)

lemma stableStringify_json: "is_json v \<Longrightarrow> stableStringify v = Some (enc v)"
  by (cases v) (simp_all add: enc_def ToString_def)

lemma first_kind_num: "c \<in> set ''0123456789-'' \<Longrightarrow> first_kind c = 2"
  by (auto simp: first_kind_def)

lemma enc_kind: "is_json v \<Longrightarrow> enc v \<noteq> [] \<and> first_kind (hd (enc v)) = kind v"
proof (cases v)
  case (JNum i)
  have "hd (number_to_string i) \<in> set (number_to_string i)"
    using number_to_string_nonempty by simp
  then have "hd (number_to_string i) \<in> set ''0123456789-''"
    using set_number_to_string by blast
  then show ?thesis using JNum number_to_string_nonempty first_kind_num
    by (simp add: enc_simps)
qed (simp_all add: enc_simps first_kind_def json_quote_def dquote_def)

lemma kind_le: "is_json v \<Longrightarrow> kind v \<le> 5"
  by (cases v) simp_all

lemma same_kind:
  assumes "is_json a" "is_json b" "enc a @ r = enc b @ r'"
  shows "kind a = kind b"
proof -
  have "hd (enc a @ r) = hd (enc a)" "hd (enc b @ r') = hd (enc b)"
    using enc_kind assms(1,2) by simp_all
  with assms(3) have "hd (enc a) = hd (enc b)" by simp
  then show ?thesis using enc_kind [OF assms(1)] enc_kind [OF assms(2)] by simp
qed

lemma join_comma_Cons:
  "join_comma (Some s # xs) = s @ (if xs = [] then [] else CHR '','' # join_comma xs)"
  by (cases xs) (simp_all add: join_element_def)

lemma join_comma_delim:
  fixes f :: "'a \<Rightarrow> string" and g :: "'b \<Rightarrow> string"
  assumes elt: "\<And>a b r r'. a \<in> set as \<Longrightarrow> b \<in> set bs \<Longrightarrow> delim r \<Longrightarrow> delim r' \<Longrightarrow>
                  f a @ r = g b @ r' \<Longrightarrow> R a b \<and> r = r'"
    and fa: "\<And>a. a \<in> set as \<Longrightarrow> f a \<noteq> [] \<and> hd (f a) \<noteq> c"
    and gb: "\<And>b. b \<in> set bs \<Longrightarrow> g b \<noteq> [] \<and> hd (g b) \<noteq> c"
    and c: "c = CHR '']'' \<or> c = CHR ''}''"
    and eq: "join_comma (map (\<lambda>a. Some (f a)) as) @ c # r =
             join_comma (map (\<lambda>b. Some (g b)) bs) @ c # r'"
  shows "list_all2 R as bs \<and> r = r'"
  using elt fa gb eq
proof (induction as arbitrary: bs)
  case Nil
  show ?case
  proof (cases bs)
    case Nil
    with Nil.prems(4) show ?thesis by simp
  next
    case (Cons b bs')
    have gb: "g b \<noteq> []" "hd (g b) \<noteq> c" using Nil.prems(3) [of b] Cons by simp_all
    then obtain x xs where x: "g b = x # xs" "x \<noteq> c" by (cases "g b") auto
    from Nil.prems(4) Cons have "c # r = g b @ (if bs' = [] then [] else CHR '','' # join_comma (map (\<lambda>b. Some (g b)) bs')) @ c # r'"
      by (simp add: join_comma_Cons del: join_comma.simps(2,3))
    with x show ?thesis by simp
  qed
next
  case (Cons a as')
  show ?case
  proof (cases bs)
    case Nil
    have "f a \<noteq> []" "hd (f a) \<noteq> c" using Cons.prems(2) [of a] by simp_all
    then obtain x xs where x: "f a = x # xs" "x \<noteq> c" by (cases "f a") auto
    from Cons.prems(4) Nil have "f a @ (if as' = [] then [] else CHR '','' # join_comma (map (\<lambda>a. Some (f a)) as')) @ c # r = c # r'"
      by (simp add: join_comma_Cons del: join_comma.simps(2,3))
    with x show ?thesis by simp
  next
    case (Cons b bs')
    let ?X = "(if as' = [] then [] else CHR '','' # join_comma (map (\<lambda>a. Some (f a)) as')) @ c # r"
    let ?Y = "(if bs' = [] then [] else CHR '','' # join_comma (map (\<lambda>b. Some (g b)) bs')) @ c # r'"
    have dX: "delim ?X" using c by (auto simp: delim_def)
    have dY: "delim ?Y" using c by (auto simp: delim_def)
    from Cons.prems(4) Cons have "f a @ ?X = g b @ ?Y"
      by (simp add: join_comma_Cons del: join_comma.simps(2,3))
    from Cons.prems(1) [OF _ _ dX dY this] Cons
    have ab: "R a b" and XY: "?X = ?Y" by simp_all
    have ne: "c \<noteq> CHR '',''" using c by auto
    show ?thesis
    proof (cases "as' = []")
      case True
      show ?thesis
      proof (cases "bs' = []")
        case bt: True
        with True XY ab Cons show ?thesis by simp
      next
        case bf: False
        with True XY ne show ?thesis by simp
      qed
    next
      case False
      show ?thesis
      proof (cases "bs' = []")
        case bt: True
        with False XY ne show ?thesis by simp
      next
        case bf: False
        with False XY have e: "join_comma (map (\<lambda>a. Some (f a)) as') @ c # r =
             join_comma (map (\<lambda>b. Some (g b)) bs') @ c # r'" by simp
        have h1: "R x y \<and> s = s'"
          if "x \<in> set as'" "y \<in> set bs'" "delim s" "delim s'" "f x @ s = g y @ s'"
          for x y s s'
          using Cons.prems(1) [of x y s s'] that Cons by simp
        have h2: "f x \<noteq> [] \<and> hd (f x) \<noteq> c" if "x \<in> set as'" for x
          using Cons.prems(2) [of x] that by simp
        have h3: "g y \<noteq> [] \<and> hd (g y) \<noteq> c" if "y \<in> set bs'" for y
          using Cons.prems(3) [of y] that Cons by simp
        have "list_all2 R as' bs' \<and> r = r'"
          by (rule Cons.IH [OF h1 h2 h3 e])
        with ab Cons show ?thesis by simp
      qed
    qed
  qed
qed

lemma first_kind_close: "first_kind (CHR '']'') = 6" "first_kind (CHR ''}'') = 6"
  by (simp_all add: first_kind_def dquote_def)

lemma enc_not_close:
  assumes "is_json v" "c = CHR '']'' \<or> c = CHR ''}''"
  shows "enc v \<noteq> [] \<and> hd (enc v) \<noteq> c"
proof -
  have "first_kind (hd (enc v)) \<le> 5" using enc_kind [OF assms(1)] kind_le [OF assms(1)] by simp
  moreover have "first_kind c = 6" using assms(2) first_kind_close by auto
  ultimately show ?thesis using enc_kind [OF assms(1)] by auto
qed

lemma map_stableStringify_json:
  "\<forall>x\<in>set xs. is_json x \<Longrightarrow> map stableStringify xs = map (\<lambda>x. Some (enc x)) xs"
  by (simp add: stableStringify_json)

lemma map_of_json:
  assumes "is_json (JObj kvs)" "k \<in> set (Object_keys kvs)"
  shows "\<exists>v. map_of kvs k = Some v \<and> (k, v) \<in> set kvs \<and> is_json v"
proof -
  from assms(2) obtain v where "(k, v) \<in> set kvs" by (auto simp: Object_keys_def)
  moreover from this assms(1) have "map_of kvs k = Some v" "is_json v" by auto
  ultimately show ?thesis by blast
qed

lemma enc_delim:
  "is_json a \<Longrightarrow> is_json b \<Longrightarrow> delim r \<Longrightarrow> delim r' \<Longrightarrow> enc a @ r = enc b @ r'
   \<Longrightarrow> deep_eq a b \<and> r = r'"
proof (induction a arbitrary: b r r')
  case JUndefined
  then show ?case by simp
next
  case JNull
  from same_kind [OF JNull(1,2,5)] JNull(2) have "b = JNull" by (cases b) simp_all
  with JNull show ?case by (simp add: enc_simps)
next
  case (JBool x)
  from same_kind [OF JBool(1,2,5)] JBool(2) obtain y where "b = JBool y" by (cases b) simp_all
  with JBool show ?case by (cases x; cases y) (simp_all add: enc_simps)
next
  case (JNum i)
  from same_kind [OF JNum(1,2,5)] JNum(2) obtain j where "b = JNum j" by (cases b) simp_all
  with JNum number_delim [of i r j r'] show ?case by (simp add: enc_simps)
next
  case (JStr s)
  from same_kind [OF JStr(1,2,5)] JStr(2) obtain t where "b = JStr t" by (cases b) simp_all
  with JStr json_quote_delim [of s r t r'] show ?case by (simp add: enc_simps)
next
  case (JArr xs)
  from same_kind [OF JArr(2,3,6)] JArr(3) obtain ys where b: "b = JArr ys" by (cases b) simp_all
  have jx: "\<forall>x\<in>set xs. is_json x" and jy: "\<forall>y\<in>set ys. is_json y"
    using JArr(2,3) b by simp_all
  from JArr(6) b
  have e: "join_comma (map (\<lambda>x. Some (enc x)) xs) @ CHR '']'' # r =
           join_comma (map (\<lambda>y. Some (enc y)) ys) @ CHR '']'' # r'"
    by (simp add: enc_simps map_stableStringify_json [OF jx] map_stableStringify_json [OF jy])
  have h1: "deep_eq x y \<and> s = s'"
    if "x \<in> set xs" "y \<in> set ys" "delim s" "delim s'" "enc x @ s = enc y @ s'" for x y s s'
    using JArr.IH [OF that(1) _ _ that(3,4,5)] that(1,2) jx jy by blast
  have h2: "enc x \<noteq> [] \<and> hd (enc x) \<noteq> CHR '']''" if "x \<in> set xs" for x
    using enc_not_close [of x "CHR '']''"] that jx by simp
  have h3: "enc y \<noteq> [] \<and> hd (enc y) \<noteq> CHR '']''" if "y \<in> set ys" for y
    using enc_not_close [of y "CHR '']''"] that jy by simp
  have "list_all2 deep_eq xs ys \<and> r = r'"
    by (rule join_comma_delim [OF h1 h2 h3 _ e]) simp_all
  with b show ?case by simp
next
  case (JObj kvs)
  from same_kind [OF JObj(2,3,6)] JObj(3) obtain kvs' where b: "b = JObj kvs'"
    by (cases b) simp_all
  let ?entry = "\<lambda>m k. json_quote k @ CHR '':'' #
                  ToString (case map_of m k of None \<Rightarrow> None | Some v \<Rightarrow> stableStringify v)"
  let ?ks = "sort (Object_keys kvs)" and ?ks' = "sort (Object_keys kvs')"
  let ?R = "\<lambda>k k'. k = k' \<and> deep_eq (the (map_of kvs k)) (the (map_of kvs' k'))"
  have jb: "is_json (JObj kvs')" using JObj(3) b by simp
  from JObj(6) b
  have e: "join_comma (map (\<lambda>k. Some (?entry kvs k)) ?ks) @ CHR ''}'' # r =
           join_comma (map (\<lambda>k. Some (?entry kvs' k)) ?ks') @ CHR ''}'' # r'"
    by (simp add: enc_simps)
  have h1: "?R k k' \<and> s = s'"
    if "k \<in> set ?ks" "k' \<in> set ?ks'" "delim s" "delim s'" "?entry kvs k @ s = ?entry kvs' k' @ s'"
    for k k' s s'
  proof -
    from that(1) map_of_json [OF JObj(2), of k]
    obtain v where v: "map_of kvs k = Some v" "(k, v) \<in> set kvs" "is_json v" by auto
    from that(2) map_of_json [OF jb, of k']
    obtain w where w: "map_of kvs' k' = Some w" "(k', w) \<in> set kvs'" "is_json w" by auto
    from that(5) v w
    have "json_quote k @ (CHR '':'' # enc v @ s) = json_quote k' @ (CHR '':'' # enc w @ s')"
      by (simp add: stableStringify_json ToString_def)
    from json_quote_delim [OF this] have kk: "k = k'" and vw: "enc v @ s = enc w @ s'" by simp_all
    have "v \<in> Basic_BNFs.snds (k, v)" by simp
    from JObj.IH [OF v(2) this v(3) w(3) that(3,4) vw] kk v w show ?thesis by simp
  qed
  have h2: "?entry kvs k \<noteq> [] \<and> hd (?entry kvs k) \<noteq> CHR ''}''" for k
    by (simp add: json_quote_def dquote_def)
  have h3: "?entry kvs' k \<noteq> [] \<and> hd (?entry kvs' k) \<noteq> CHR ''}''" for k
    by (simp add: json_quote_def dquote_def)
  have res: "list_all2 ?R ?ks ?ks' \<and> r = r'"
    by (rule join_comma_delim [OF h1 h2 h3 _ e]) simp_all
  then have "list_all2 (=) ?ks ?ks'" by (auto elim: list_all2_mono)
  then have same: "?ks = ?ks'" by (simp add: list_all2_eq)
  then have "set ?ks = set ?ks'" by simp
  then have keys: "set (map fst kvs) = set (map fst kvs')" by (simp add: Object_keys_def)
  have vals: "deep_eq v w" if "(k, v) \<in> set kvs" "(k, w) \<in> set kvs'" for k v w
  proof -
    from that JObj(2) jb have mv: "map_of kvs k = Some v" and mw: "map_of kvs' k = Some w"
      by auto
    from that(1) have "k \<in> set ?ks" by (force simp: Object_keys_def)
    then obtain i where i: "i < length ?ks" "?ks ! i = k" unfolding in_set_conv_nth by blast
    from res have "?R (?ks ! i) (?ks' ! i)" using i(1) by (auto simp: list_all2_conv_all_nth)
    with same i mv mw show ?thesis by simp
  qed
  from keys vals res b show ?case by auto
qed

lemma stable_injective:
  assumes "is_json a" "is_json b" "stableStringify a = stableStringify b"
  shows "deep_eq a b"
proof -
  have "enc a @ [] = enc b @ []" using assms(3) by (simp add: enc_def)
  from enc_delim [OF assms(1,2) _ _ this] show ?thesis by (simp add: delim_def)
qed

subsection \<open>The cache key\<close>

lemma makeMatcherCacheKey_eq_iff:
  "makeMatcherCacheKey n a = makeMatcherCacheKey n b \<longleftrightarrow> enc a = enc b"
  by (simp add: makeMatcherCacheKey_def enc_def)

lemma is_json_wf_obj: "is_json v \<Longrightarrow> wf_obj v"
  by (induction v) auto

text \<open>
  Claim C4, as the code has it. Values that are deeply equal up to the order of object
  keys get the same cache key, whatever they are. Values that are not deeply equal get
  different keys when both are JSON values (\<^verbatim>\<open>null\<close>, booleans, safe integers, strings,
  arrays and plain objects of such). Outside the JSON values keys can collide: an array
  that holds \<^verbatim>\<open>undefined\<close> prints like the empty array.
\<close>

theorem cache_key_determinism:
  "(wf_obj a \<and> wf_obj b \<and> deep_eq a b \<longrightarrow> makeMatcherCacheKey n a = makeMatcherCacheKey n b) \<and>
   (is_json a \<and> is_json b \<and> \<not> deep_eq a b \<longrightarrow> makeMatcherCacheKey n a \<noteq> makeMatcherCacheKey n b)"
proof (intro conjI impI)
  assume "wf_obj a \<and> wf_obj b \<and> deep_eq a b"
  then have "stableStringify a = stableStringify b" using deep_eq_stable by blast
  then show "makeMatcherCacheKey n a = makeMatcherCacheKey n b"
    by (simp add: makeMatcherCacheKey_def)
next
  assume h: "is_json a \<and> is_json b \<and> \<not> deep_eq a b"
  show "makeMatcherCacheKey n a \<noteq> makeMatcherCacheKey n b"
  proof
    assume "makeMatcherCacheKey n a = makeMatcherCacheKey n b"
    then have "enc a = enc b" by (simp add: makeMatcherCacheKey_eq_iff)
    then have "stableStringify a = stableStringify b"
      using h by (simp add: stableStringify_json)
    with h stable_injective show False by blast
  qed
qed

theorem cache_key_determinism_witness:
  "wf_obj (JObj [(''b'', JNum 2), (''a'', JArr [JStr ''x'', JUndefined])]) \<and>
   wf_obj (JObj [(''a'', JArr [JStr ''x'', JUndefined]), (''b'', JNum 2)]) \<and>
   deep_eq (JObj [(''b'', JNum 2), (''a'', JArr [JStr ''x'', JUndefined])])
           (JObj [(''a'', JArr [JStr ''x'', JUndefined]), (''b'', JNum 2)]) \<and>
   makeMatcherCacheKey ''m'' (JObj [(''b'', JNum 2), (''a'', JArr [JStr ''x'', JUndefined])]) =
   makeMatcherCacheKey ''m'' (JObj [(''a'', JArr [JStr ''x'', JUndefined]), (''b'', JNum 2)]) \<and>
   is_json (JNum 1) \<and> is_json (JStr ''1'') \<and> \<not> deep_eq (JNum 1) (JStr ''1'') \<and>
   makeMatcherCacheKey ''m'' (JNum 1) \<noteq> makeMatcherCacheKey ''m'' (JStr ''1'')"
  using cache_key_determinism [of "JObj [(''b'', JNum 2), (''a'', JArr [JStr ''x'', JUndefined])]"
          "JObj [(''a'', JArr [JStr ''x'', JUndefined]), (''b'', JNum 2)]" "''m''"]
        cache_key_determinism [of "JNum 1" "JStr ''1''" "''m''"]
  by (simp add: insert_commute)

text \<open>The claim as stated fails: \<^verbatim>\<open>[undefined]\<close> and \<^verbatim>\<open>[]\<close> are structurally different and
  have the same key.\<close>

theorem cache_key_collision:
  "\<not> deep_eq (JArr [JUndefined]) (JArr []) \<and>
   makeMatcherCacheKey ''m'' (JArr [JUndefined]) = makeMatcherCacheKey ''m'' (JArr [])"
  by (simp add: makeMatcherCacheKey_def join_element_def)

section \<open>The matcher factory: \<open>createMatcher\<close>\<close>

text \<open>
  Claim C9. When a configuration holds both \<open>evaluate\<close> and \<open>evaluateBatch\<close>, \<open>createMatcher\<close>
  returns the configuration without \<open>evaluate\<close>: the batch evaluator and every other field
  are as they were. \<open>createMatcher\<close> has no error result.
\<close>

theorem createMatcher_keeps_batch:
  "evaluate cfg \<noteq> None \<and> evaluateBatch cfg \<noteq> None \<longrightarrow>
     createMatcher cfg = cfg\<lparr>evaluate := None\<rparr> \<and>
     evaluate (createMatcher cfg) = None \<and>
     evaluateBatch (createMatcher cfg) = evaluateBatch cfg \<and>
     arguments (createMatcher cfg) = arguments cfg \<and>
     config_toNode (createMatcher cfg) = config_toNode cfg \<and>
     matcher_config.more (createMatcher cfg) = matcher_config.more cfg"
  by (simp add: createMatcher_def)

theorem createMatcher_keeps_batch_witness:
  "evaluate \<lparr>arguments = None, evaluate = Some (\<lambda>c. Returns 0 True),
             evaluateBatch = Some (\<lambda>cs. \<lparr>resolutions = [], failure = None\<rparr>),
             config_toNode = Some (MatcherN ''m'' [])\<rparr> \<noteq> None \<and>
   evaluateBatch \<lparr>arguments = None, evaluate = Some (\<lambda>c. Returns 0 True),
             evaluateBatch = Some (\<lambda>cs. \<lparr>resolutions = [], failure = None\<rparr>),
             config_toNode = Some (MatcherN ''m'' [])\<rparr> \<noteq> None \<and>
   evaluate (createMatcher \<lparr>arguments = None, evaluate = Some (\<lambda>c. Returns 0 True),
             evaluateBatch = Some (\<lambda>cs. \<lparr>resolutions = [], failure = None\<rparr>),
             config_toNode = Some (MatcherN ''m'' [])\<rparr>) = None \<and>
   config_toNode (createMatcher \<lparr>arguments = None, evaluate = Some (\<lambda>c. Returns 0 True),
             evaluateBatch = Some (\<lambda>cs. \<lparr>resolutions = [], failure = None\<rparr>),
             config_toNode = Some (MatcherN ''m'' [])\<rparr>) = Some (MatcherN ''m'' [])"
  using createMatcher_keeps_batch [of "\<lparr>arguments = None, evaluate = Some (\<lambda>c. Returns 0 True),
             evaluateBatch = Some (\<lambda>cs. \<lparr>resolutions = [], failure = None\<rparr>),
             config_toNode = Some (MatcherN ''m'' [])\<rparr>"]
  by simp

section \<open>The batch coalescer\<close>




lemma resolve_next [simp]: "next_promise (resolve p r ps) = next_promise ps"
  by (simp add: resolve_def split: option.splits)

lemma resolve_all_next [simp]: "next_promise (resolve_all q rs ps) = next_promise ps"
  by (induction q rs ps rule: resolve_all.induct) (simp_all split: option.splits)



lemma flush_eq:
  "DataLoader_flush dl ps =
     (snd (swap_out dl),
      resolve_all (dl_queue dl) (resolutions (dl_evaluateBatch dl (map fst (dl_queue dl)))) ps,
      [dl_queue dl],
      map_option snd (failure (dl_evaluateBatch dl (map fst (dl_queue dl)))))"
  by (simp add: DataLoader_flush_def call_evaluateBatch_def swap_out_def Let_def)

lemma flush_ok:
  assumes "DataLoader_flush dl ps = (dl', ps', invocations, res)"
  shows "loader_ok dl' ps'"
  using assms by (auto simp: flush_eq swap_out_def loader_ok_def)




section \<open>Memoised matcher factories\<close>



lemma call_factory_miss_arg:
  "arguments m \<noteq> None \<Longrightarrow> memo st n (stableStringify a) = None \<Longrightarrow>
   call_factory n m a st =
     (next_ref st,
      st\<lparr>heap := (heap st)(next_ref st \<mapsto> (Wrapped n m a, True)),
         memo := (memo st)(n := (memo st n)(stableStringify a \<mapsto> next_ref st)),
         next_ref := Suc (next_ref st)\<rparr>)"
  by (simp add: call_factory_def Let_def)


lemma call_factory_miss_noarg:
  "arguments m = None \<Longrightarrow> singleton st n = None \<Longrightarrow>
   call_factory n m a st =
     (next_ref st,
      st\<lparr>heap := (heap st)(next_ref st \<mapsto> (Wrapped n m JUndefined, False)),
         singleton := (singleton st)(n \<mapsto> next_ref st),
         next_ref := Suc (next_ref st)\<rparr>)"
  by (simp add: call_factory_def Let_def)








text \<open>The singleton of a matcher without argument schema is a plain object: it is not
  frozen, unlike the definitions of a matcher with a schema.\<close>

lemma singleton_not_frozen:
  "arguments m = None \<Longrightarrow> singleton st n = None \<Longrightarrow> call_factory n m a st = (r, st') \<Longrightarrow>
   heap st' r = Some (Wrapped n m JUndefined, False)"
  by (auto simp: call_factory_miss_noarg)

lemma memoized_frozen:
  "arguments m \<noteq> None \<Longrightarrow> memo st n (stableStringify a) = None \<Longrightarrow>
   call_factory n m a st = (r, st') \<Longrightarrow> heap st' r = Some (Wrapped n m a, True)"
  by (auto simp: call_factory_miss_arg)

section \<open>Argument errors and the result cache\<close>

lemma wrapped_cached:
  "arguments m = Some sch \<Longrightarrow> cache w (makeMatcherCacheKey n a) = Some f \<Longrightarrow>
   evaluateInternal_wrapped n m a ctx w = (Launched f, w)"
  by (simp add: evaluateInternal_wrapped_def)

lemma wrapped_invalid:
  assumes "arguments m = Some sch" "cache w (makeMatcherCacheKey n a) = None"
    and "\<forall>v. sch a \<noteq> Value v" "\<forall>t. sch a \<noteq> ValidateThrows t"
  shows "\<exists>msg. evaluateInternal_wrapped n m a ctx w =
           (Launched (errAsync (MatcherArgumentError (allocated w) msg n (segmentName_or_unknown ctx))),
            w\<lparr>validations := validations w @ [(n, a)], allocated := Suc (allocated w)\<rparr>)"
  using assms
  by (cases "sch a") (auto simp: evaluateInternal_wrapped_def validate_argument_def Let_def)

lemma wrapped_validate_throws:
  assumes "arguments m = Some sch" "cache w (makeMatcherCacheKey n a) = None"
    and "sch a = ValidateThrows t"
  shows "evaluateInternal_wrapped n m a ctx w = (Threw t, w\<lparr>validations := validations w @ [(n, a)]\<rparr>)"
  using assms by (simp add: evaluateInternal_wrapped_def validate_argument_def Let_def)

lemma wrapped_single_dispatch:
  assumes "arguments m = Some sch" "cache w (makeMatcherCacheKey n a) = None" "sch a = Value v"
    and "evaluateBatch m = None" "evaluate m = Some ev"
    and "\<forall>t. ev (context_object (params ctx) (Some v) (segmentName ctx)) \<noteq> Throws t"
  shows "\<exists>f w1. evaluateInternal_wrapped n m a ctx w = (Launched f, w1) \<and>
           cache w1 = (cache w)(makeMatcherCacheKey n a \<mapsto> f) \<and>
           evaluations w1 = evaluations w @ [(n, a)] \<and>
           validations w1 = validations w @ [(n, a)]"
  using assms
  by (cases "ev (context_object (params ctx) (Some v) (segmentName ctx))")
     (simp_all add: evaluateInternal_wrapped_def validate_argument_def evaluate_single_def Let_def)

lemma map_of_bc_update: "map_of (bc_update k v bc) k' = (if k' = k then Some v else map_of bc k')"
  by (induction bc) auto

lemma bc_get_update: "bc_get (bc_update k v bc) k = Own v"
  by (simp add: bc_get_def map_of_bc_update)

text \<open>No member of \<^verbatim>\<open>Object.prototype\<close> has a colon in its name, so the loader key of a
  matcher with an argument schema never finds one.\<close>

lemma prototype_no_colon: "k \<in> set Object_prototype \<Longrightarrow> CHR '':'' \<notin> set k"
  by (auto simp: Object_prototype_def)

lemma loader_key_not_inherited: "n @ '':'' @ s \<notin> set Object_prototype"
  using prototype_no_colon [of "n @ '':'' @ s"] by auto

lemma evaluate_batch_dispatch:
  assumes "hasBatchContext ctx" "\<forall>q. map_of (batchContext w) k \<noteq> Some (Queue q)"
    and "k \<notin> set Object_prototype"
  shows "\<exists>p w1. evaluate_batch evb k key req ctx w = (Launched (Await p), w1) \<and>
           cache w1 = (cache w)(key \<mapsto> Await p) \<and>
           evaluations w1 = evaluations w \<and> validations w1 = validations w"
proof (cases "map_of (batchContext w) k")
  case None
  obtain p dl' ps' where l: "DataLoader_load req (new_DataLoader evb) (promises w) = (p, dl', ps')"
    by (metis prod_cases3)
  show ?thesis
    using assms(1,3) None l by (simp add: evaluate_batch_def Let_def bc_get_def map_of_bc_update)
next
  case (Some x)
  with assms(2) obtain dl where x: "x = Loader dl" by (cases x) auto
  obtain p dl' ps' where l: "DataLoader_load req dl (promises w) = (p, dl', ps')"
    by (metis prod_cases3)
  show ?thesis
    using assms(1) Some x l by (simp add: evaluate_batch_def Let_def bc_get_def)
qed

lemma wrapped_batch_dispatch:
  assumes "arguments m = Some sch" "cache w (makeMatcherCacheKey n a) = None" "sch a = Value v"
    and "evaluateBatch m = Some evb" "hasBatchContext ctx"
    and "\<forall>q. map_of (batchContext w) (n @ '':'' @ ToString (stableStringify a)) \<noteq> Some (Queue q)"
  shows "\<exists>f w1. evaluateInternal_wrapped n m a ctx w = (Launched f, w1) \<and>
           cache w1 = (cache w)(makeMatcherCacheKey n a \<mapsto> f) \<and>
           evaluations w1 = evaluations w \<and>
           validations w1 = validations w @ [(n, a)]"
proof -
  let ?w = "w\<lparr>validations := validations w @ [(n, a)]\<rparr>"
  have v: "validate_argument sch n a ctx w = (Launched (Inr v), ?w)"
    using assms(3) by (simp add: validate_argument_def)
  have q: "\<forall>q. map_of (batchContext ?w) (n @ '':'' @ ToString (stableStringify a)) \<noteq> Some (Queue q)"
    using assms(6) by simp
  from evaluate_batch_dispatch [OF assms(5) q loader_key_not_inherited, of evb "makeMatcherCacheKey n a"
         "context_object (params ctx) (Some v) (segmentName ctx)"]
  obtain p w1 where
    "evaluate_batch evb (n @ '':'' @ ToString (stableStringify a)) (makeMatcherCacheKey n a)
       (context_object (params ctx) (Some v) (segmentName ctx)) ctx ?w = (Launched (Await p), w1)"
    "cache w1 = (cache ?w)(makeMatcherCacheKey n a \<mapsto> Await p)"
    "evaluations w1 = evaluations ?w" "validations w1 = validations ?w"
    by blast
  then show ?thesis
    using assms(1,2,4) v by (simp add: evaluateInternal_wrapped_def)
qed

text \<open>
  Claim C10. Take a matcher with an argument schema whose key is not in the cache.
  If the schema does not accept the bound argument (it returns issues, or no value), the
  entry point returns an argument error and leaves the cache as it was; called again it
  validates again and returns an argument error that is another object. If the schema
  throws, the entry point throws what the schema threw, and the cache is as it was. If the
  schema accepts the argument and the dispatch succeeds (the single evaluator does not
  throw synchronously, or the batch context is there), the outcome is in the cache under
  the key, and a second call returns that same outcome and changes nothing.
\<close>

theorem argument_errors_not_cached:
  assumes "arguments m = Some sch" and "cache w (makeMatcherCacheKey n a) = None"
  shows "((\<forall>v. sch a \<noteq> Value v) \<and> (\<forall>t. sch a \<noteq> ValidateThrows t) \<longrightarrow>
            (\<exists>msg w1 w2.
               evaluateInternal_wrapped n m a ctx w =
                 (Launched (errAsync (MatcherArgumentError (allocated w) msg n (segmentName_or_unknown ctx))), w1) \<and>
               cache w1 = cache w \<and> validations w1 = validations w @ [(n, a)] \<and>
               evaluations w1 = evaluations w \<and> batchContext w1 = batchContext w \<and>
               evaluateInternal_wrapped n m a ctx w1 =
                 (Launched (errAsync (MatcherArgumentError (Suc (allocated w)) msg n (segmentName_or_unknown ctx))), w2) \<and>
               cache w2 = cache w \<and> validations w2 = validations w @ [(n, a), (n, a)])) \<and>
         (\<forall>t. sch a = ValidateThrows t \<longrightarrow>
            (\<exists>w1. evaluateInternal_wrapped n m a ctx w = (Threw t, w1) \<and>
                  cache w1 = cache w \<and> validations w1 = validations w @ [(n, a)] \<and>
                  evaluations w1 = evaluations w \<and> batchContext w1 = batchContext w)) \<and>
         ((\<exists>v. sch a = Value v \<and>
            (case evaluateBatch m of
               None \<Rightarrow> (\<exists>ev. evaluate m = Some ev \<and>
                          (\<forall>t. ev (context_object (params ctx) (Some v) (segmentName ctx)) \<noteq> Throws t))
             | Some evb \<Rightarrow> hasBatchContext ctx \<and>
                 (\<forall>q. map_of (batchContext w) (n @ '':'' @ ToString (stableStringify a)) \<noteq> Some (Queue q)))) \<longrightarrow>
            (\<exists>f w1.
               evaluateInternal_wrapped n m a ctx w = (Launched f, w1) \<and>
               cache w1 (makeMatcherCacheKey n a) = Some f \<and>
               validations w1 = validations w @ [(n, a)] \<and>
               evaluateInternal_wrapped n m a ctx w1 = (Launched f, w1)))"
proof (intro conjI impI allI)
  assume "(\<forall>v. sch a \<noteq> Value v) \<and> (\<forall>t. sch a \<noteq> ValidateThrows t)"
  then have inv: "\<forall>v. sch a \<noteq> Value v" and nt: "\<forall>t. sch a \<noteq> ValidateThrows t" by simp_all
  let ?w1 = "w\<lparr>validations := validations w @ [(n, a)], allocated := Suc (allocated w)\<rparr>"
  from wrapped_invalid [OF assms inv nt, of ctx] obtain msg where
    1: "evaluateInternal_wrapped n m a ctx w =
           (Launched (errAsync (MatcherArgumentError (allocated w) msg n (segmentName_or_unknown ctx))), ?w1)"
    by blast
  have c1: "cache ?w1 (makeMatcherCacheKey n a) = None" using assms(2) by simp
  from wrapped_invalid [OF assms(1) c1 inv nt, of ctx] obtain msg' where
    2: "evaluateInternal_wrapped n m a ctx ?w1 =
           (Launched (errAsync (MatcherArgumentError (allocated ?w1) msg' n (segmentName_or_unknown ctx))),
            ?w1\<lparr>validations := validations ?w1 @ [(n, a)], allocated := Suc (allocated ?w1)\<rparr>)"
    by blast
  have same: "msg' = msg"
    using 1 2 inv nt assms
    by (cases "sch a") (simp_all add: evaluateInternal_wrapped_def validate_argument_def Let_def errAsync_def)
  show "\<exists>msg w1 w2.
               evaluateInternal_wrapped n m a ctx w =
                 (Launched (errAsync (MatcherArgumentError (allocated w) msg n (segmentName_or_unknown ctx))), w1) \<and>
               cache w1 = cache w \<and> validations w1 = validations w @ [(n, a)] \<and>
               evaluations w1 = evaluations w \<and> batchContext w1 = batchContext w \<and>
               evaluateInternal_wrapped n m a ctx w1 =
                 (Launched (errAsync (MatcherArgumentError (Suc (allocated w)) msg n (segmentName_or_unknown ctx))), w2) \<and>
               cache w2 = cache w \<and> validations w2 = validations w @ [(n, a), (n, a)]"
    apply (rule exI [of _ msg])
    apply (rule exI [of _ ?w1])
    apply (rule exI [of _ "?w1\<lparr>validations := validations ?w1 @ [(n, a)], allocated := Suc (allocated ?w1)\<rparr>"])
    using 1 2 same by simp
next
  fix t
  assume "sch a = ValidateThrows t"
  from wrapped_validate_throws [OF assms this, of ctx]
  show "\<exists>w1. evaluateInternal_wrapped n m a ctx w = (Threw t, w1) \<and>
                  cache w1 = cache w \<and> validations w1 = validations w @ [(n, a)] \<and>
                  evaluations w1 = evaluations w \<and> batchContext w1 = batchContext w"
    by simp
next
  assume "\<exists>v. sch a = Value v \<and>
            (case evaluateBatch m of
               None \<Rightarrow> (\<exists>ev. evaluate m = Some ev \<and>
                          (\<forall>t. ev (context_object (params ctx) (Some v) (segmentName ctx)) \<noteq> Throws t))
             | Some evb \<Rightarrow> hasBatchContext ctx \<and>
                 (\<forall>q. map_of (batchContext w) (n @ '':'' @ ToString (stableStringify a)) \<noteq> Some (Queue q)))"
  then obtain v where v: "sch a = Value v"
    and d: "case evaluateBatch m of
               None \<Rightarrow> (\<exists>ev. evaluate m = Some ev \<and>
                          (\<forall>t. ev (context_object (params ctx) (Some v) (segmentName ctx)) \<noteq> Throws t))
             | Some evb \<Rightarrow> hasBatchContext ctx \<and>
                 (\<forall>q. map_of (batchContext w) (n @ '':'' @ ToString (stableStringify a)) \<noteq> Some (Queue q))"
    by blast
  have "\<exists>f w1. evaluateInternal_wrapped n m a ctx w = (Launched f, w1) \<and>
           cache w1 = (cache w)(makeMatcherCacheKey n a \<mapsto> f) \<and>
           validations w1 = validations w @ [(n, a)]"
  proof (cases "evaluateBatch m")
    case None
    with d obtain ev where "evaluate m = Some ev"
      "\<forall>t. ev (context_object (params ctx) (Some v) (segmentName ctx)) \<noteq> Throws t" by auto
    from wrapped_single_dispatch [OF assms v None this] show ?thesis by blast
  next
    case (Some evb)
    with d have "hasBatchContext ctx"
      "\<forall>q. map_of (batchContext w) (n @ '':'' @ ToString (stableStringify a)) \<noteq> Some (Queue q)" by auto
    from wrapped_batch_dispatch [OF assms v Some this] show ?thesis by blast
  qed
  then obtain f w1 where r: "evaluateInternal_wrapped n m a ctx w = (Launched f, w1)"
    "cache w1 = (cache w)(makeMatcherCacheKey n a \<mapsto> f)" "validations w1 = validations w @ [(n, a)]"
    by blast
  then have "cache w1 (makeMatcherCacheKey n a) = Some f" by simp
  with r wrapped_cached [OF assms(1) this, of ctx]
  show "\<exists>f w1.
               evaluateInternal_wrapped n m a ctx w = (Launched f, w1) \<and>
               cache w1 (makeMatcherCacheKey n a) = Some f \<and>
               validations w1 = validations w @ [(n, a)] \<and>
               evaluateInternal_wrapped n m a ctx w1 = (Launched f, w1)" by blast
qed

theorem argument_errors_not_cached_witness:
  "arguments number_matcher = Some number_schema \<and>
   cache initial_world (makeMatcherCacheKey ''m'' (JStr ''x'')) = None \<and>
   (\<forall>v. number_schema (JStr ''x'') \<noteq> Value v) \<and>
   (\<forall>t. number_schema (JStr ''x'') \<noteq> ValidateThrows t) \<and>
   (\<exists>msg w1 w2.
      evaluateInternal_wrapped ''m'' number_matcher (JStr ''x'') (in_segment ''s'') initial_world =
        (Launched (errAsync (MatcherArgumentError 0 msg ''m'' ''s'')), w1) \<and>
      cache w1 = Map.empty \<and> validations w1 = [(''m'', JStr ''x'')] \<and>
      evaluateInternal_wrapped ''m'' number_matcher (JStr ''x'') (in_segment ''s'') w1 =
        (Launched (errAsync (MatcherArgumentError 1 msg ''m'' ''s'')), w2) \<and>
      validations w2 = [(''m'', JStr ''x''), (''m'', JStr ''x'')]) \<and>
   number_schema (JNum 1) = Value (JNum 1) \<and>
   (\<exists>f w1.
      evaluateInternal_wrapped ''m'' number_matcher (JNum 1) (in_segment ''s'') initial_world = (Launched f, w1) \<and>
      cache w1 (makeMatcherCacheKey ''m'' (JNum 1)) = Some f \<and>
      evaluateInternal_wrapped ''m'' number_matcher (JNum 1) (in_segment ''s'') w1 = (Launched f, w1)) \<and>
   arguments schema_thrower = Some throwing_schema \<and>
   throwing_schema (JNum 1) = ValidateThrows (ThrownError (Error ''invalid'')) \<and>
   (\<exists>w1. evaluateInternal_wrapped ''m'' schema_thrower (JNum 1) (in_segment ''s'') initial_world =
           (Threw (ThrownError (Error ''invalid'')), w1) \<and>
         cache w1 = Map.empty \<and> validations w1 = [(''m'', JNum 1)])"
proof -
  have a: "arguments number_matcher = Some number_schema" by (simp add: number_matcher_def)
  have a': "arguments schema_thrower = Some throwing_schema" by (simp add: schema_thrower_def)
  have c: "cache initial_world k = None" for k by (simp add: initial_world_def)
  have bad: "\<forall>v. number_schema (JStr ''x'') \<noteq> Value v" by (simp add: number_schema_def)
  have nothrow: "\<forall>t. number_schema (JStr ''x'') \<noteq> ValidateThrows t" by (simp add: number_schema_def)
  have good: "number_schema (JNum 1) = Value (JNum 1)" by (simp add: number_schema_def)
  have thr: "throwing_schema (JNum 1) = ValidateThrows (ThrownError (Error ''invalid''))"
    by (simp add: throwing_schema_def)
  have s: "segmentName_or_unknown (in_segment ''s'') = ''s''"
    by (simp add: segmentName_or_unknown_def in_segment_def)
  have i: "allocated initial_world = 0" "cache initial_world = Map.empty" "validations initial_world = []"
    by (simp_all add: initial_world_def)
  have d: "\<exists>v. number_schema (JNum 1) = Value v \<and>
            (case evaluateBatch number_matcher of
               None \<Rightarrow> (\<exists>ev. evaluate number_matcher = Some ev \<and>
                          (\<forall>t. ev (context_object (params (in_segment ''s'')) (Some v) (segmentName (in_segment ''s''))) \<noteq> Throws t))
             | Some evb \<Rightarrow> hasBatchContext (in_segment ''s'') \<and>
                 (\<forall>q. map_of (batchContext initial_world) (''m'' @ '':'' @ ToString (stableStringify (JNum 1))) \<noteq> Some (Queue q)))"
    by (simp add: number_schema_def number_matcher_def)
  from argument_errors_not_cached [OF a c, of "JStr ''x''" "''m''" "in_segment ''s''"] bad nothrow
  have 1: "\<exists>msg w1 w2.
      evaluateInternal_wrapped ''m'' number_matcher (JStr ''x'') (in_segment ''s'') initial_world =
        (Launched (errAsync (MatcherArgumentError 0 msg ''m'' ''s'')), w1) \<and>
      cache w1 = Map.empty \<and> validations w1 = [(''m'', JStr ''x'')] \<and>
      evaluateInternal_wrapped ''m'' number_matcher (JStr ''x'') (in_segment ''s'') w1 =
        (Launched (errAsync (MatcherArgumentError 1 msg ''m'' ''s'')), w2) \<and>
      validations w2 = [(''m'', JStr ''x''), (''m'', JStr ''x'')]"
    unfolding s i by auto
  from argument_errors_not_cached [OF a c, of "JNum 1" "''m''" "in_segment ''s''"] d
  have 2: "\<exists>f w1.
      evaluateInternal_wrapped ''m'' number_matcher (JNum 1) (in_segment ''s'') initial_world = (Launched f, w1) \<and>
      cache w1 (makeMatcherCacheKey ''m'' (JNum 1)) = Some f \<and>
      evaluateInternal_wrapped ''m'' number_matcher (JNum 1) (in_segment ''s'') w1 = (Launched f, w1)"
    by blast
  from argument_errors_not_cached [OF a' c, of "JNum 1" "''m''" "in_segment ''s''"] thr
  have 3: "\<exists>w1. evaluateInternal_wrapped ''m'' schema_thrower (JNum 1) (in_segment ''s'') initial_world =
           (Threw (ThrownError (Error ''invalid'')), w1) \<and>
         cache w1 = Map.empty \<and> validations w1 = [(''m'', JNum 1)]"
    unfolding i by auto
  from a a' c bad nothrow good thr 1 2 3 show ?thesis by blast
qed

section \<open>Logical operators\<close>

subsection \<open>Which entry points return a future\<close>

lemma loaders_only_update:
  "loaders_only w \<Longrightarrow> \<forall>k' q. map_of (bc_update k (Loader dl) (batchContext w)) k' \<noteq> Some (Queue q)"
  by (simp add: loaders_only_def map_of_bc_update)

lemma evaluate_batch_keeps_loaders:
  assumes "loaders_only w" "evaluate_batch evb k key req ctx w = (r, w1)"
  shows "loaders_only w1"
proof (cases "hasBatchContext ctx")
  case False
  with assms show ?thesis by (simp add: evaluate_batch_def)
next
  case True
  show ?thesis
  proof (cases "map_of (batchContext w) k")
    case None
    show ?thesis
    proof (cases "k \<in> set Object_prototype")
      case p: True
      with None True assms show ?thesis by (auto simp: evaluate_batch_def bc_get_def Let_def)
    next
      case p: False
      obtain p dl' ps' where l: "DataLoader_load req (new_DataLoader evb) (promises w) = (p, dl', ps')"
        by (metis prod_cases3)
      from p None True assms l show ?thesis
        by (auto simp: evaluate_batch_def bc_get_def Let_def map_of_bc_update loaders_only_def
            split: if_splits)
    qed
  next
    case (Some x)
    with assms(1) obtain dl where x: "x = Loader dl" by (cases x) (auto simp: loaders_only_def)
    obtain p dl' ps' where l: "DataLoader_load req dl (promises w) = (p, dl', ps')"
      by (metis prod_cases3)
    from Some x True assms l show ?thesis
      by (auto simp: evaluate_batch_def bc_get_def Let_def map_of_bc_update loaders_only_def
          split: if_splits)
  qed
qed

lemma evaluate_batch_loaders:
  assumes "hasBatchContext ctx" "loaders_only w" "k \<notin> set Object_prototype"
  shows "\<exists>p w1. evaluate_batch evb k key req ctx w = (Launched (Await p), w1) \<and> loaders_only w1"
proof -
  have q: "\<forall>q. map_of (batchContext w) k \<noteq> Some (Queue q)" using assms(2) by (simp add: loaders_only_def)
  from evaluate_batch_dispatch [OF assms(1) q assms(3), of evb key req] obtain p w1 where
    e: "evaluate_batch evb k key req ctx w = (Launched (Await p), w1)" by blast
  from evaluate_batch_keeps_loaders [OF assms(2) e] e show ?thesis by blast
qed

lemma validate_argument_bc:
  "validate_argument sch n a ctx w = (r, w1) \<Longrightarrow> batchContext w1 = batchContext w"
  by (auto simp: validate_argument_def Let_def split: validation.splits)

lemma validate_argument_launched:
  "\<forall>t. sch a \<noteq> ValidateThrows t \<Longrightarrow> \<exists>r w1. validate_argument sch n a ctx w = (Launched r, w1)"
  by (cases "sch a") (simp_all add: validate_argument_def Let_def)

lemma evaluate_single_loaders:
  "\<exists>f w1. evaluate_single n m a key req ctx w = (Launched f, w1) \<and> batchContext w1 = batchContext w"
  by (auto simp: evaluate_single_def Let_def split: option.splits behaviour.splits)

lemma wrapped_keeps_loaders:
  assumes "loaders_only w" "evaluateInternal_wrapped n m a ctx w = (r, w1)"
  shows "loaders_only w1"
proof -
  have single: "evaluate_single n m a' key req ctx w' = (r, w1) \<Longrightarrow> loaders_only w' \<Longrightarrow> loaders_only w1"
    for a' key req w'
    using evaluate_single_loaders [of n m a' key req ctx w'] by (auto simp: loaders_only_def)
  show ?thesis
  proof (cases "arguments m")
    case None
    with assms single evaluate_batch_keeps_loaders [OF assms(1)] show ?thesis
      by (auto simp: evaluateInternal_wrapped_def Let_def split: option.splits)
  next
    case (Some sch)
    show ?thesis
    proof (cases "cache w (makeMatcherCacheKey n a)")
      case c: (Some f)
      with Some assms show ?thesis by (simp add: evaluateInternal_wrapped_def)
    next
      case c: None
      obtain vr wv where v: "validate_argument sch n a ctx w = (vr, wv)" by (metis prod.exhaust)
      have lv: "loaders_only wv" using validate_argument_bc [OF v] assms(1) by (simp add: loaders_only_def)
      from Some c v assms(2) lv single [of _ _ _ wv] evaluate_batch_keeps_loaders [OF lv]
      show ?thesis
        by (auto simp: evaluateInternal_wrapped_def Let_def split: option.splits launch.splits sum.splits)
    qed
  qed
qed

lemma wrapped_loaders:
  assumes "hasBatchContext ctx" "loaders_only w" "launches (n, m, a)"
  shows "\<exists>f w1. evaluateInternal_wrapped n m a ctx w = (Launched f, w1) \<and> loaders_only w1"
proof -
  have "\<exists>f w1. evaluateInternal_wrapped n m a ctx w = (Launched f, w1)"
  proof (cases "arguments m")
    case None
    show ?thesis
    proof (cases "cache w (makeMatcherCacheKey n JUndefined)")
      case (Some f)
      with None show ?thesis by (simp add: evaluateInternal_wrapped_def)
    next
      case cn: None
      show ?thesis
      proof (cases "evaluateBatch m")
        case (Some evb)
        with None assms(3) have "n \<notin> set Object_prototype" by (simp add: launches_def)
        from evaluate_batch_loaders [OF assms(1,2) this, of evb "makeMatcherCacheKey n JUndefined"
            "context_object (params ctx) None (segmentName ctx)"] None cn Some
        show ?thesis by (auto simp: evaluateInternal_wrapped_def)
      next
        case en: None
        with None cn
          evaluate_single_loaders [of n m JUndefined "makeMatcherCacheKey n JUndefined"
            "context_object (params ctx) None (segmentName ctx)" ctx w]
        show ?thesis by (auto simp: evaluateInternal_wrapped_def)
      qed
    qed
  next
    case (Some sch)
    show ?thesis
    proof (cases "cache w (makeMatcherCacheKey n a)")
      case c: (Some f)
      with Some show ?thesis by (simp add: evaluateInternal_wrapped_def)
    next
      case cn: None
      from Some assms(3) have "\<forall>t. sch a \<noteq> ValidateThrows t" by (simp add: launches_def)
      with validate_argument_launched [of sch a n ctx w] obtain r w1 where
        v: "validate_argument sch n a ctx w = (Launched r, w1)" by blast
      have l1: "loaders_only w1" using validate_argument_bc [OF v] assms(2) by (simp add: loaders_only_def)
      show ?thesis
      proof (cases r)
        case (Inl e)
        with Some cn v show ?thesis by (simp add: evaluateInternal_wrapped_def)
      next
        case (Inr x)
        show ?thesis
        proof (cases "evaluateBatch m")
          case b: (Some evb)
          from evaluate_batch_loaders [OF assms(1) l1 loader_key_not_inherited, of evb
              n "ToString (stableStringify a)" "makeMatcherCacheKey n a"
              "context_object (params ctx) (Some x) (segmentName ctx)"] Some cn v Inr b
          show ?thesis by (auto simp: evaluateInternal_wrapped_def)
        next
          case en: None
          with Some cn v Inr
            evaluate_single_loaders [of n m a "makeMatcherCacheKey n a"
              "context_object (params ctx) (Some x) (segmentName ctx)" ctx w1]
          show ?thesis by (auto simp: evaluateInternal_wrapped_def)
        qed
      qed
    qed
  qed
  then obtain f w1 where e: "evaluateInternal_wrapped n m a ctx w = (Launched f, w1)" by blast
  from wrapped_keeps_loaders [OF assms(2) e] e show ?thesis by blast
qed

lemma launch_keeps_loaders:
  "loaders_only w \<Longrightarrow> evaluateInternal d ctx w = (r, w') \<Longrightarrow> loaders_only w'"
  "loaders_only w \<Longrightarrow> evaluateInternal_all ds ctx w = (rs, w') \<Longrightarrow> loaders_only w'"
proof (induction d ctx w and ds ctx w arbitrary: r w' and rs w' rule: evaluateInternal_evaluateInternal_all.induct)
  case (1 name matcherObj matcherArg ctx w)
  then show ?case using wrapped_keeps_loaders by simp
next
  case (2 ms ctx w)
  then show ?case by (auto split: prod.splits launch.splits)
next
  case (3 ms ctx w)
  then show ?case by (auto split: prod.splits launch.splits)
next
  case (4 m ctx w)
  then show ?case by (auto split: prod.splits launch.splits)
next
  case (5 ctx w)
  then show ?case by simp
next
  case (6 m ms ctx w)
  obtain r1 w1 where a: "evaluateInternal m ctx w = (r1, w1)" by (metis prod.exhaust)
  from 6(1) [OF 6(3) a] have l1: "loaders_only w1" .
  show ?case
  proof (cases r1)
    case (Threw t)
    with a 6(4) l1 show ?thesis by simp
  next
    case (Launched f)
    obtain r2 w2 where b: "evaluateInternal_all ms ctx w1 = (r2, w2)" by (metis prod.exhaust)
    from 6(2) [OF a [symmetric, unfolded Launched] refl l1 b] have "loaders_only w2" .
    with a b Launched 6(4) show ?thesis by (auto split: launch.splits)
  qed
qed

text \<open>With a batch context, every definition whose references all launch returns a
  future, and so do all operands of an operator.\<close>

lemma launch_total:
  "hasBatchContext ctx \<Longrightarrow> loaders_only w \<Longrightarrow> \<forall>l\<in>set (leaves d). launches l \<Longrightarrow>
     \<exists>f w'. evaluateInternal d ctx w = (Launched f, w') \<and> loaders_only w'"
  "hasBatchContext ctx \<Longrightarrow> loaders_only w \<Longrightarrow> \<forall>l\<in>set (concat (map leaves ds)). launches l \<Longrightarrow>
     \<exists>fs w'. evaluateInternal_all ds ctx w = (Launched fs, w') \<and> loaders_only w' \<and> length fs = length ds"
proof (induction d ctx w and ds ctx w rule: evaluateInternal_evaluateInternal_all.induct)
  case (1 name matcherObj matcherArg ctx w)
  then show ?case using wrapped_loaders by simp
next
  case (2 ms ctx w)
  from 2(1) [OF 2(2,3)] 2(4) show ?case by auto
next
  case (3 ms ctx w)
  from 3(1) [OF 3(2,3)] 3(4) show ?case by auto
next
  case (4 m ctx w)
  from 4(1) [OF 4(2,3)] 4(4) show ?case by auto
next
  case (5 ctx w)
  then show ?case by simp
next
  case (6 m ms ctx w)
  from 6(1) [OF 6(3,4)] 6(5) obtain f w' where
    a: "evaluateInternal m ctx w = (Launched f, w')" "loaders_only w'" by auto
  from 6(2) [OF a(1) [symmetric] _ 6(3) a(2)] 6(5) obtain fs w'' where
    b: "evaluateInternal_all ms ctx w' = (Launched fs, w'')" "loaders_only w''" "length fs = length ms"
    by auto
  from a b show ?case by simp
qed

text \<open>When all operands return a future, each was launched in the state its predecessor
  left, and the futures are in the order of the operands.\<close>

lemma launch_all_pointwise:
  "evaluateInternal_all ms ctx w = (Launched fs, w') \<Longrightarrow>
     length fs = length ms \<and> w' = world_at ms ctx w (length ms) \<and>
     (\<forall>i<length ms. evaluateInternal (ms ! i) ctx (world_at ms ctx w i) =
                       (Launched (fs ! i), world_at ms ctx w (Suc i)))"
proof (induction ms arbitrary: w fs)
  case Nil
  then show ?case by simp
next
  case (Cons m ms)
  from Cons.prems obtain f w1 fs' where
    a: "evaluateInternal m ctx w = (Launched f, w1)"
    and b: "evaluateInternal_all ms ctx w1 = (Launched fs', w')"
    and fs: "fs = f # fs'"
    by (auto split: prod.splits launch.splits)
  note ih = Cons.IH [OF b]
  have "evaluateInternal ((m # ms) ! i) ctx (world_at (m # ms) ctx w i) =
          (Launched (fs ! i), world_at (m # ms) ctx w (Suc i))" if "i < length (m # ms)" for i
  proof (cases i)
    case 0
    with a fs show ?thesis by simp
  next
    case (Suc j)
    with that ih a fs show ?thesis by simp
  qed
  with ih a fs show ?case by simp
qed

text \<open>All operands return a future exactly when none of them throws in the state its
  predecessor left.\<close>

lemma launch_all_unless_thrown:
  "\<forall>i<length ms. \<forall>t w'. evaluateInternal (ms ! i) ctx (world_at ms ctx w i) \<noteq> (Threw t, w') \<Longrightarrow>
     \<exists>fs w'. evaluateInternal_all ms ctx w = (Launched fs, w')"
proof (induction ms arbitrary: w)
  case Nil
  then show ?case by simp
next
  case (Cons m ms)
  obtain r w1 where a: "evaluateInternal m ctx w = (r, w1)" by (metis prod.exhaust)
  from Cons.prems [rule_format, of 0] a obtain f where r: "r = Launched f"
    by (cases r) auto
  have "\<forall>i<length ms. \<forall>t w'. evaluateInternal (ms ! i) ctx (world_at ms ctx w1 i) \<noteq> (Threw t, w')"
  proof (intro allI impI)
    fix i t w'
    assume "i < length ms"
    with Cons.prems [rule_format, of "Suc i" t w'] a
    show "evaluateInternal (ms ! i) ctx (world_at ms ctx w1 i) \<noteq> (Threw t, w')" by simp
  qed
  from Cons.IH [OF this] obtain fs w' where "evaluateInternal_all ms ctx w1 = (Launched fs, w')"
    by blast
  with a r show ?case by simp
qed

lemma operators_never_throw:
  "\<exists>f w'. evaluateInternal (AndDef ms) ctx w = (Launched f, w')"
  "\<exists>f w'. evaluateInternal (OrDef ms) ctx w = (Launched f, w')"
  "\<exists>f w'. evaluateInternal (NotDef m) ctx w = (Launched f, w')"
  by (auto split: prod.splits launch.splits)

subsection \<open>What the operators' futures settle to\<close>

lemma settle_all_None: "settle_all ps fs = None \<longleftrightarrow> (\<exists>f\<in>set fs. settle ps f = None)"
  by (induction fs) (auto split: option.splits)

lemma settle_all_Some:
  "settle_all ps fs = Some rs \<Longrightarrow>
     length rs = length fs \<and> (\<forall>i<length fs. settle ps (fs ! i) = Some (rs ! i))"
proof (induction fs arbitrary: rs)
  case Nil
  then show ?case by simp
next
  case (Cons f fs)
  from Cons.prems obtain r rs' where r: "settle ps f = Some r" "settle_all ps fs = Some rs'" "rs = r # rs'"
    by (auto split: option.splits)
  from Cons.IH [OF r(2)] r show ?case by (auto simp: nth_Cons split: nat.splits)
qed

lemma first_error_Some:
  "first_error rs = Some e \<Longrightarrow>
     \<exists>pre t post. rs = pre @ (t, Inl e) # post \<and> (\<forall>r\<in>set pre. \<exists>b. snd r = Inr b)"
proof (induction rs rule: first_error.induct)
  case 1
  then show ?case by simp
next
  case (2 t e' rs)
  then have "(t, Inl e') # rs = [] @ (t, Inl e) # rs \<and> (\<forall>r\<in>set ([] :: (nat \<times> (err + bool)) list). \<exists>b. snd r = Inr b)" by simp
  then show ?case by (intro exI)
next
  case (3 t b rs)
  then obtain pre t' post where "rs = pre @ (t', Inl e) # post" "\<forall>r\<in>set pre. \<exists>b. snd r = Inr b"
    by auto
  then have "(t, Inr b) # rs = ((t, Inr b) # pre) @ (t', Inl e) # post \<and>
             (\<forall>r\<in>set ((t, Inr b) # pre). \<exists>b. snd r = Inr b)" by simp
  then show ?case by (intro exI)
qed

lemma first_error_None: "first_error rs = None \<longleftrightarrow> (\<forall>r\<in>set rs. \<exists>b. snd r = Inr b)"
  by (induction rs rule: first_error.induct) auto

lemma all_true:
  "\<forall>r\<in>set rs. \<exists>b. snd r = Inr b \<Longrightarrow>
     list_all (\<lambda>r. unwrapOr_false (snd r)) rs = (\<forall>r\<in>set rs. snd r = Inr True)"
  by (induction rs) (auto simp: unwrapOr_false_def)

lemma some_true:
  "list_ex (\<lambda>r. unwrapOr_false (snd r)) rs = (\<exists>r\<in>set rs. snd r = Inr True)"
  by (induction rs) (auto simp: unwrapOr_false_def split: sum.splits)

lemma new_call_simps [simp]:
  "cache (new_call w) = Map.empty" "batchContext (new_call w) = []" "microtasks (new_call w) = []"
  "promises (new_call w) = promises w"
  by (simp_all add: new_call_def)

lemma flush_nothing [simp]: "batchContext w = [] \<Longrightarrow> flushAllBatchQueues ms w = w"
  by (simp add: flushAllBatchQueues_def)

lemma run_nothing [simp]: "microtasks w = [] \<Longrightarrow> run_microtasks w = w"
  by (simp add: run_microtasks_def)

lemma key_T_F [simp]:
  "makeMatcherCacheKey ''T'' JUndefined \<noteq> makeMatcherCacheKey ''F'' JUndefined"
  "makeMatcherCacheKey ''F'' JUndefined \<noteq> makeMatcherCacheKey ''T'' JUndefined"
  by (simp_all add: makeMatcherCacheKey_def)

lemma truth_tables:
  "fst (matches cfg subject (adhoc (AndDef [T, T])) fb w) = Resolved True"
  "fst (matches cfg subject (adhoc (AndDef [T, F])) fb w) = Resolved False"
  "fst (matches cfg subject (adhoc (OrDef [F, T])) fb w) = Resolved True"
  "fst (matches cfg subject (adhoc (OrDef [F, F])) fb w) = Resolved False"
  "fst (matches cfg subject (adhoc (NotDef T)) fb w) = Resolved False"
  by (simp_all add: matches_def adhoc_def matches_adhoc_def T_def F_def always_def
        evaluateInternal_wrapped_def evaluate_single_def isBatchMatcher_def Let_def
        latest_def unwrapOr_false_def)

text \<open>
  Claim C7, as the code has it. An operator's entry point never throws. When the entry
  point of no operand throws synchronously, every operand is launched, each in the state
  its predecessor left, and the operator's future is built from the futures of all
  operands, in their order. No operand throws when there is a batch context and every
  reference under the operands launches. The future settles only when the futures of all
  operands have settled.
  Its result is the error of the first operand, in operand order, that failed (all operands
  before it succeeded); without a failed operand it is the conjunction (AND) or the
  disjunction (OR) of the operands' booleans. NOT passes an error on and negates a
  boolean. The truth tables hold for the always-true matcher \<open>T\<close> and the always-false
  matcher \<open>F\<close>.
\<close>

theorem logical_operators:
  "(\<exists>f w'. evaluateInternal (AndDef ms) ctx w = (Launched f, w')) \<and>
   (\<exists>f w'. evaluateInternal (OrDef ms) ctx w = (Launched f, w')) \<and>
   (\<exists>f w'. evaluateInternal (NotDef m) ctx w = (Launched f, w')) \<and>
   ((\<forall>i<length ms. \<forall>t w'. evaluateInternal (ms ! i) ctx (world_at ms ctx w i) \<noteq> (Threw t, w')) \<longrightarrow>
      (\<exists>fs. length fs = length ms \<and>
            (\<forall>i<length ms. evaluateInternal (ms ! i) ctx (world_at ms ctx w i) =
                              (Launched (fs ! i), world_at ms ctx w (Suc i))) \<and>
            evaluateInternal_all ms ctx w = (Launched fs, world_at ms ctx w (length ms)) \<and>
            evaluateInternal (AndDef ms) ctx w = (Launched (AllAnd fs), world_at ms ctx w (length ms)) \<and>
            evaluateInternal (OrDef ms) ctx w = (Launched (AllOr fs), world_at ms ctx w (length ms)))) \<and>
   ((\<forall>t w'. evaluateInternal m ctx w \<noteq> (Threw t, w')) \<longrightarrow>
      (\<exists>f w'. evaluateInternal m ctx w = (Launched f, w') \<and>
               evaluateInternal (NotDef m) ctx w = (Launched (Negate f), w'))) \<and>
   (hasBatchContext ctx \<and> loaders_only w \<longrightarrow>
      ((\<forall>l\<in>set (concat (map leaves ms)). launches l) \<longrightarrow>
         (\<forall>i<length ms. \<forall>t w'. evaluateInternal (ms ! i) ctx (world_at ms ctx w i) \<noteq> (Threw t, w'))) \<and>
      ((\<forall>l\<in>set (leaves m). launches l) \<longrightarrow> (\<forall>t w'. evaluateInternal m ctx w \<noteq> (Threw t, w')))) \<and>
   ((\<exists>f\<in>set fs. settle ps f = None) \<longrightarrow>
      settle ps (AllAnd fs) = None \<and> settle ps (AllOr fs) = None) \<and>
   ((\<forall>f\<in>set fs. settle ps f \<noteq> None) \<longrightarrow> (\<exists>rs. settle_all ps fs = Some rs)) \<and>
   (\<forall>rs. settle_all ps fs = Some rs \<longrightarrow>
      length rs = length fs \<and> (\<forall>i<length fs. settle ps (fs ! i) = Some (rs ! i)) \<and>
      ((\<exists>r\<in>set rs. \<exists>e. snd r = Inl e) \<longrightarrow> first_error rs \<noteq> None) \<and>
      (\<forall>e. first_error rs = Some e \<longrightarrow>
         (\<exists>pre t post. rs = pre @ (t, Inl e) # post \<and> (\<forall>r\<in>set pre. \<exists>b. snd r = Inr b)) \<and>
         settle ps (AllAnd fs) = Some (latest rs, Inl e) \<and>
         settle ps (AllOr fs) = Some (latest rs, Inl e)) \<and>
      (first_error rs = None \<longrightarrow>
         settle ps (AllAnd fs) = Some (latest rs, Inr (\<forall>r\<in>set rs. snd r = Inr True)) \<and>
         settle ps (AllOr fs) = Some (latest rs, Inr (\<exists>r\<in>set rs. snd r = Inr True)))) \<and>
   settle ps (Negate f) =
     (case settle ps f of
        None \<Rightarrow> None
      | Some (t, Inl e) \<Rightarrow> Some (t, Inl e)
      | Some (t, Inr b) \<Rightarrow> Some (t, Inr (\<not> b))) \<and>
   fst (matches cfg subject (adhoc (AndDef [T, T])) fb w0) = Resolved True \<and>
   fst (matches cfg subject (adhoc (AndDef [T, F])) fb w0) = Resolved False \<and>
   fst (matches cfg subject (adhoc (OrDef [F, T])) fb w0) = Resolved True \<and>
   fst (matches cfg subject (adhoc (OrDef [F, F])) fb w0) = Resolved False \<and>
   fst (matches cfg subject (adhoc (NotDef T)) fb w0) = Resolved False"
proof -
  have launched: "(\<forall>i<length ms. \<forall>t w'. evaluateInternal (ms ! i) ctx (world_at ms ctx w i) \<noteq> (Threw t, w')) \<longrightarrow>
      (\<exists>fs. length fs = length ms \<and>
            (\<forall>i<length ms. evaluateInternal (ms ! i) ctx (world_at ms ctx w i) =
                              (Launched (fs ! i), world_at ms ctx w (Suc i))) \<and>
            evaluateInternal_all ms ctx w = (Launched fs, world_at ms ctx w (length ms)) \<and>
            evaluateInternal (AndDef ms) ctx w = (Launched (AllAnd fs), world_at ms ctx w (length ms)) \<and>
            evaluateInternal (OrDef ms) ctx w = (Launched (AllOr fs), world_at ms ctx w (length ms)))"
  proof
    assume "\<forall>i<length ms. \<forall>t w'. evaluateInternal (ms ! i) ctx (world_at ms ctx w i) \<noteq> (Threw t, w')"
    from launch_all_unless_thrown [OF this] obtain fs w' where
      a: "evaluateInternal_all ms ctx w = (Launched fs, w')" by blast
    note p = launch_all_pointwise [OF a]
    show "\<exists>fs. length fs = length ms \<and>
            (\<forall>i<length ms. evaluateInternal (ms ! i) ctx (world_at ms ctx w i) =
                              (Launched (fs ! i), world_at ms ctx w (Suc i))) \<and>
            evaluateInternal_all ms ctx w = (Launched fs, world_at ms ctx w (length ms)) \<and>
            evaluateInternal (AndDef ms) ctx w = (Launched (AllAnd fs), world_at ms ctx w (length ms)) \<and>
            evaluateInternal (OrDef ms) ctx w = (Launched (AllOr fs), world_at ms ctx w (length ms))"
      apply (rule exI [of _ fs])
      using a p by simp
  qed
  have negated: "(\<forall>t w'. evaluateInternal m ctx w \<noteq> (Threw t, w')) \<longrightarrow>
      (\<exists>f w'. evaluateInternal m ctx w = (Launched f, w') \<and>
               evaluateInternal (NotDef m) ctx w = (Launched (Negate f), w'))"
  proof
    assume n: "\<forall>t w'. evaluateInternal m ctx w \<noteq> (Threw t, w')"
    obtain r w1 where b: "evaluateInternal m ctx w = (r, w1)" by (metis prod.exhaust)
    with n obtain f where "r = Launched f" by (cases r) auto
    with b show "\<exists>f w'. evaluateInternal m ctx w = (Launched f, w') \<and>
               evaluateInternal (NotDef m) ctx w = (Launched (Negate f), w')" by simp
  qed
  have sufficient: "hasBatchContext ctx \<and> loaders_only w \<longrightarrow>
      ((\<forall>l\<in>set (concat (map leaves ms)). launches l) \<longrightarrow>
         (\<forall>i<length ms. \<forall>t w'. evaluateInternal (ms ! i) ctx (world_at ms ctx w i) \<noteq> (Threw t, w'))) \<and>
      ((\<forall>l\<in>set (leaves m). launches l) \<longrightarrow> (\<forall>t w'. evaluateInternal m ctx w \<noteq> (Threw t, w')))"
  proof (intro impI conjI)
    assume h: "hasBatchContext ctx \<and> loaders_only w"
      and l: "\<forall>l\<in>set (concat (map leaves ms)). launches l"
    from launch_total(2) [OF h [THEN conjunct1] h [THEN conjunct2] l] obtain fs w' where
      a: "evaluateInternal_all ms ctx w = (Launched fs, w')" by blast
    from launch_all_pointwise [OF a]
    show "\<forall>i<length ms. \<forall>t w'. evaluateInternal (ms ! i) ctx (world_at ms ctx w i) \<noteq> (Threw t, w')"
      by simp
  next
    assume h: "hasBatchContext ctx \<and> loaders_only w"
      and l: "\<forall>l\<in>set (leaves m). launches l"
    from launch_total(1) [OF h [THEN conjunct1] h [THEN conjunct2] l]
    show "\<forall>t w'. evaluateInternal m ctx w \<noteq> (Threw t, w')" by auto
  qed
  have pending: "(\<exists>f\<in>set fs. settle ps f = None) \<longrightarrow>
      settle ps (AllAnd fs) = None \<and> settle ps (AllOr fs) = None"
    using settle_all_None [of ps fs] by auto
  have complete: "(\<forall>f\<in>set fs. settle ps f \<noteq> None) \<longrightarrow> (\<exists>rs. settle_all ps fs = Some rs)"
    using settle_all_None [of ps fs] by auto
  have settled: "\<forall>rs. settle_all ps fs = Some rs \<longrightarrow>
      length rs = length fs \<and> (\<forall>i<length fs. settle ps (fs ! i) = Some (rs ! i)) \<and>
      ((\<exists>r\<in>set rs. \<exists>e. snd r = Inl e) \<longrightarrow> first_error rs \<noteq> None) \<and>
      (\<forall>e. first_error rs = Some e \<longrightarrow>
         (\<exists>pre t post. rs = pre @ (t, Inl e) # post \<and> (\<forall>r\<in>set pre. \<exists>b. snd r = Inr b)) \<and>
         settle ps (AllAnd fs) = Some (latest rs, Inl e) \<and>
         settle ps (AllOr fs) = Some (latest rs, Inl e)) \<and>
      (first_error rs = None \<longrightarrow>
         settle ps (AllAnd fs) = Some (latest rs, Inr (\<forall>r\<in>set rs. snd r = Inr True)) \<and>
         settle ps (AllOr fs) = Some (latest rs, Inr (\<exists>r\<in>set rs. snd r = Inr True)))"
  proof (intro allI impI)
    fix rs
    assume rs: "settle_all ps fs = Some rs"
    have 1: "length rs = length fs \<and> (\<forall>i<length fs. settle ps (fs ! i) = Some (rs ! i))"
      using settle_all_Some [OF rs] .
    have 2: "(\<exists>r\<in>set rs. \<exists>e. snd r = Inl e) \<longrightarrow> first_error rs \<noteq> None"
      using first_error_None [of rs] by auto
    have 3: "\<forall>e. first_error rs = Some e \<longrightarrow>
         (\<exists>pre t post. rs = pre @ (t, Inl e) # post \<and> (\<forall>r\<in>set pre. \<exists>b. snd r = Inr b)) \<and>
         settle ps (AllAnd fs) = Some (latest rs, Inl e) \<and>
         settle ps (AllOr fs) = Some (latest rs, Inl e)"
      using first_error_Some [of rs] rs by simp
    have 4: "first_error rs = None \<longrightarrow>
         settle ps (AllAnd fs) = Some (latest rs, Inr (\<forall>r\<in>set rs. snd r = Inr True)) \<and>
         settle ps (AllOr fs) = Some (latest rs, Inr (\<exists>r\<in>set rs. snd r = Inr True))"
    proof
      assume n: "first_error rs = None"
      then have "\<forall>r\<in>set rs. \<exists>b. snd r = Inr b" by (simp add: first_error_None)
      from all_true [OF this] some_true [of rs] rs n
      show "settle ps (AllAnd fs) = Some (latest rs, Inr (\<forall>r\<in>set rs. snd r = Inr True)) \<and>
         settle ps (AllOr fs) = Some (latest rs, Inr (\<exists>r\<in>set rs. snd r = Inr True))"
        by simp
    qed
    from 1 2 3 4 show "length rs = length fs \<and> (\<forall>i<length fs. settle ps (fs ! i) = Some (rs ! i)) \<and>
      ((\<exists>r\<in>set rs. \<exists>e. snd r = Inl e) \<longrightarrow> first_error rs \<noteq> None) \<and>
      (\<forall>e. first_error rs = Some e \<longrightarrow>
         (\<exists>pre t post. rs = pre @ (t, Inl e) # post \<and> (\<forall>r\<in>set pre. \<exists>b. snd r = Inr b)) \<and>
         settle ps (AllAnd fs) = Some (latest rs, Inl e) \<and>
         settle ps (AllOr fs) = Some (latest rs, Inl e)) \<and>
      (first_error rs = None \<longrightarrow>
         settle ps (AllAnd fs) = Some (latest rs, Inr (\<forall>r\<in>set rs. snd r = Inr True)) \<and>
         settle ps (AllOr fs) = Some (latest rs, Inr (\<exists>r\<in>set rs. snd r = Inr True)))"
      by blast
  qed
  have neg: "settle ps (Negate f) =
     (case settle ps f of
        None \<Rightarrow> None
      | Some (t, Inl e) \<Rightarrow> Some (t, Inl e)
      | Some (t, Inr b) \<Rightarrow> Some (t, Inr (\<not> b)))" by simp
  from operators_never_throw(1,2) [of ms ctx w] operators_never_throw(3) [of m ctx w]
    launched negated sufficient pending complete settled neg truth_tables [of cfg subject fb w0]
  show ?thesis by blast
qed

text \<open>
  An instance: \<open>and(T, F)\<close> launches \<open>T\<close> and then \<open>F\<close>, and its future holds their futures in
  that order; of three operands that settle at ticks 0, 1 and 3, the second and the third
  with an error, AND and OR settle at tick 3 with the error of the second.
\<close>

theorem logical_operators_witness:
  "hasBatchContext (in_segment ''s'') \<and> loaders_only initial_world \<and>
   launches (''T'', always True, JUndefined) \<and> launches (''F'', always False, JUndefined) \<and>
   fst (evaluateInternal (AndDef [T, F]) (in_segment ''s'') initial_world) =
     Launched (AllAnd [Done 0 (Inr True), Done 0 (Inr False)]) \<and>
   evaluations (snd (evaluateInternal (AndDef [T, F]) (in_segment ''s'') initial_world)) =
     [(''T'', JUndefined), (''F'', JUndefined)] \<and>
   settle_all (promises initial_world) [Done 0 (Inr True), Done 1 (Inl (Error ''x'')), Done 3 (Inl (Error ''y''))] =
     Some [(0, Inr True), (1, Inl (Error ''x'')), (3, Inl (Error ''y''))] \<and>
   first_error [(0, Inr True), (1, Inl (Error ''x'')), (3, Inl (Error ''y''))] = Some (Error ''x'') \<and>
   settle (promises initial_world) (AllAnd [Done 0 (Inr True), Done 1 (Inl (Error ''x'')), Done 3 (Inl (Error ''y''))]) =
     Some (3, Inl (Error ''x'')) \<and>
   settle (promises initial_world) (AllOr [Done 0 (Inr True), Done 1 (Inl (Error ''x'')), Done 3 (Inl (Error ''y''))]) =
     Some (3, Inl (Error ''x'')) \<and>
   fst (matches \<lparr>segmentsObj = Map.empty, onError_configured = False\<rparr> (JObj []) (adhoc (AndDef [T, F])) None
          initial_world) = Resolved False"
proof -
  let ?fs = "[Done 0 (Inr True), Done 1 (Inl (Error ''x'')), Done 3 (Inl (Error ''y''))]"
  let ?rs = "[(0, Inr True), (1, Inl (Error ''x'')), (3, Inl (Error ''y''))]"
  let ?ctx = "in_segment ''s''"
  let ?w1 = "initial_world\<lparr>evaluations := [(''T'', JUndefined)],
               cache := [makeMatcherCacheKey ''T'' JUndefined \<mapsto> Done 0 (Inr True)]\<rparr>"
  let ?w2 = "?w1\<lparr>evaluations := [(''T'', JUndefined), (''F'', JUndefined)],
               cache := [makeMatcherCacheKey ''T'' JUndefined \<mapsto> Done 0 (Inr True),
                         makeMatcherCacheKey ''F'' JUndefined \<mapsto> Done 0 (Inr False)]\<rparr>"
  note l = logical_operators [of "[T, F]" ?ctx initial_world T ?fs "promises initial_world"
             "Done 0 (Inr True)" "\<lparr>segmentsObj = Map.empty, onError_configured = False\<rparr>" "JObj []" None
             initial_world]
  have h: "hasBatchContext ?ctx" "loaders_only initial_world"
    by (simp_all add: in_segment_def loaders_only_def initial_world_def)
  have lT: "launches (''T'', always True, JUndefined)" and lF: "launches (''F'', always False, JUndefined)"
    by (simp_all add: launches_def always_def)
  have ls: "\<forall>l\<in>set (concat (map leaves [T, F])). launches l" "\<forall>l\<in>set (leaves T). launches l"
    using lT lF by (simp_all add: T_def F_def)
  have eT: "evaluateInternal T ?ctx initial_world = (Launched (Done 0 (Inr True)), ?w1)"
    by (simp add: T_def always_def evaluateInternal_wrapped_def evaluate_single_def initial_world_def
          Let_def)
  have eF: "evaluateInternal F ?ctx ?w1 = (Launched (Done 0 (Inr False)), ?w2)"
    by (simp add: F_def always_def evaluateInternal_wrapped_def evaluate_single_def initial_world_def
          Let_def)
  from l h ls have "\<forall>i<length [T, F]. \<forall>t w'.
      evaluateInternal ([T, F] ! i) ?ctx (world_at [T, F] ?ctx initial_world i) \<noteq> (Threw t, w')"
    by blast
  with l obtain gs where g: "length gs = length [T, F]"
    "\<forall>i<length [T, F]. evaluateInternal ([T, F] ! i) ?ctx (world_at [T, F] ?ctx initial_world i) =
        (Launched (gs ! i), world_at [T, F] ?ctx initial_world (Suc i))"
    "evaluateInternal (AndDef [T, F]) ?ctx initial_world =
        (Launched (AllAnd gs), world_at [T, F] ?ctx initial_world (length [T, F]))"
    by blast
  have w1: "world_at [T, F] ?ctx initial_world (Suc 0) = ?w1" using eT by simp
  have w2: "world_at [T, F] ?ctx initial_world (Suc (Suc 0)) = ?w2" using eT eF by simp
  from g(2) [rule_format, of 0] eT have g0': "gs ! 0 = Done 0 (Inr True)" by simp
  from g(2) [rule_format, of "Suc 0"] eF have g1': "gs ! Suc 0 = Done 0 (Inr False)"
    unfolding w1 by simp
  from g(1) g0' g1' have gs: "gs = [Done 0 (Inr True), Done 0 (Inr False)]"
    by (cases gs; cases "tl gs") auto
  from g(3) gs w2 have 1: "fst (evaluateInternal (AndDef [T, F]) ?ctx initial_world) =
     Launched (AllAnd [Done 0 (Inr True), Done 0 (Inr False)])"
    and evs: "evaluations (snd (evaluateInternal (AndDef [T, F]) ?ctx initial_world)) =
     [(''T'', JUndefined), (''F'', JUndefined)]"
    by simp_all
  have s: "settle_all (promises initial_world) ?fs = Some ?rs" by simp
  have e: "first_error ?rs = Some (Error ''x'')" by simp
  have lt: "latest ?rs = 3" by (simp add: latest_def)
  from l have "\<forall>rs. settle_all (promises initial_world) ?fs = Some rs \<longrightarrow>
      (\<forall>e. first_error rs = Some e \<longrightarrow>
         settle (promises initial_world) (AllAnd ?fs) = Some (latest rs, Inl e) \<and>
         settle (promises initial_world) (AllOr ?fs) = Some (latest rs, Inl e))"
    by blast
  with s e lt have 2: "settle (promises initial_world) (AllAnd ?fs) = Some (3, Inl (Error ''x'')) \<and>
         settle (promises initial_world) (AllOr ?fs) = Some (3, Inl (Error ''x''))"
    by metis
  from l have 3: "fst (matches \<lparr>segmentsObj = Map.empty, onError_configured = False\<rparr> (JObj [])
          (adhoc (AndDef [T, F])) None initial_world) = Resolved False"
    by blast
  from h lT lF 1 evs s e 2 3 show ?thesis by blast
qed

text \<open>The claim as stated fails: of two failing operands the first in operand order is
  propagated, also when the second fails earlier.\<close>

theorem failure_not_in_completion_order:
  "fst (evaluateInternal
          (AndDef [Wrapped ''slow'' (rejecter 2) JUndefined, Wrapped ''fast'' (rejecter 1) JUndefined])
          (in_segment ''s'') initial_world) =
     Launched (AllAnd [Done 2 (Inl (MatcherEvaluationError 0 ''slow'' ''s'' (JObj []) (Error ''fail''))),
                       Done 1 (Inl (MatcherEvaluationError 1 ''fast'' ''s'' (JObj []) (Error ''fail'')))]) \<and>
   settle (promises initial_world)
     (AllAnd [Done 2 (Inl (MatcherEvaluationError 0 ''slow'' ''s'' (JObj []) (Error ''fail''))),
              Done 1 (Inl (MatcherEvaluationError 1 ''fast'' ''s'' (JObj []) (Error ''fail'')))]) =
     Some (2, Inl (MatcherEvaluationError 0 ''slow'' ''s'' (JObj []) (Error ''fail''))) \<and>
   first_error_by_completion
     [(2, Inl (MatcherEvaluationError 0 ''slow'' ''s'' (JObj []) (Error ''fail''))),
      (1, Inl (MatcherEvaluationError 1 ''fast'' ''s'' (JObj []) (Error ''fail'')))] =
     Some (MatcherEvaluationError 1 ''fast'' ''s'' (JObj []) (Error ''fail''))"
  by (simp add: rejecter_def in_segment_def initial_world_def evaluateInternal_wrapped_def
        evaluate_single_def makeMatcherCacheKey_def segmentName_or_unknown_def to_Error_def
        latest_def first_error_by_completion_def Let_def)

subsection \<open>An operand that throws synchronously\<close>

text \<open>An operand whose entry point throws ends the \<^verbatim>\<open>map\<close> over the operands: the operands
  after it are not launched, and the operator's future holds what was thrown. The entry
  point of a wrapped matcher throws when its schema throws, and when it is a batched matcher
  without schema whose name is the name of a member of \<^verbatim>\<open>Object.prototype\<close>.\<close>

lemma sync_throw_stops_launching:
  "evaluateInternal m ctx w = (Threw t, w') \<Longrightarrow>
   evaluateInternal (AndDef (m # ms)) ctx w = (Launched (errAsync (to_Error t)), w')"
  by simp

lemma operand_after_throwing_schema_not_launched:
  "fst (evaluateInternal (AndDef [Wrapped ''v'' schema_thrower (JNum 1), T]) (in_segment ''s'')
          initial_world) = Launched (errAsync (Error ''invalid'')) \<and>
   evaluations (snd (evaluateInternal (AndDef [Wrapped ''v'' schema_thrower (JNum 1), T])
                       (in_segment ''s'') initial_world)) = []"
  by (simp add: schema_thrower_def throwing_schema_def T_def evaluateInternal_wrapped_def
        validate_argument_def initial_world_def to_Error_def Let_def)

lemma operand_after_inherited_loader_key_not_launched:
  "fst (evaluateInternal (AndDef [Wrapped ''toString'' (batch_always True) JUndefined, T])
          (in_segment ''s'') initial_world) =
     Launched (errAsync (Error ''dataLoader.load is not a function'')) \<and>
   evaluations (snd (evaluateInternal (AndDef [Wrapped ''toString'' (batch_always True) JUndefined, T])
                       (in_segment ''s'') initial_world)) = []"
  by (simp add: batch_always_def T_def evaluateInternal_wrapped_def evaluate_batch_def bc_get_def
        Object_prototype_def in_segment_def initial_world_def to_Error_def Let_def)

section \<open>The segment evaluator\<close>

subsection \<open>What the parts of a call leave unchanged\<close>

lemma wrapped_frame:
  "evaluateInternal_wrapped n m a ctx w = (r, w') \<Longrightarrow> logged w' = logged w \<and> observed w' = observed w"
  by (auto simp: evaluateInternal_wrapped_def validate_argument_def evaluate_single_def
        evaluate_batch_def Let_def
      split: option.splits validation.splits behaviour.splits if_splits prod.splits bcval.splits
        property.splits)

lemma launch_frame:
  "evaluateInternal d ctx w = (r, w') \<Longrightarrow> logged w' = logged w \<and> observed w' = observed w"
  "evaluateInternal_all ds ctx w = (rs, w') \<Longrightarrow> logged w' = logged w \<and> observed w' = observed w"
proof (induction d ctx w and ds ctx w arbitrary: r w' and rs w' rule: evaluateInternal_evaluateInternal_all.induct)
  case (1 name matcherObj matcherArg ctx w)
  then show ?case using wrapped_frame by simp
next
  case (2 ms ctx w)
  then show ?case by (auto split: prod.splits launch.splits)
next
  case (3 ms ctx w)
  then show ?case by (auto split: prod.splits launch.splits)
next
  case (4 m ctx w)
  then show ?case by (auto split: prod.splits launch.splits)
next
  case (5 ctx w)
  then show ?case by simp
next
  case (6 m ms ctx w)
  obtain r1 w1 where a: "evaluateInternal m ctx w = (r1, w1)" by (metis prod.exhaust)
  from 6(1) [OF a] have f1: "logged w1 = logged w \<and> observed w1 = observed w" .
  show ?case
  proof (cases r1)
    case (Threw t)
    with a 6(3) f1 show ?thesis by simp
  next
    case (Launched f)
    obtain r2 w2 where b: "evaluateInternal_all ms ctx w1 = (r2, w2)" by (metis prod.exhaust)
    from 6(2) [OF a [symmetric, unfolded Launched] refl b] have "logged w2 = logged w1 \<and> observed w2 = observed w1" .
    with a b Launched 6(3) f1 show ?thesis by (auto split: launch.splits)
  qed
qed

lemma flush_queue_loaders: "loaders_only w \<Longrightarrow> flush_queue ms name w = w"
  by (auto simp: flush_queue_def loaders_only_def split: option.splits bcval.splits)

lemma fold_flush_queue_loaders: "loaders_only w \<Longrightarrow> fold (flush_queue ms) names w = w"
  by (induction names) (simp_all add: flush_queue_loaders)

lemma flushAll_loaders: "loaders_only w \<Longrightarrow> flushAllBatchQueues ms w = w"
  by (simp add: flushAllBatchQueues_def fold_flush_queue_loaders)

lemma run_flush_frame:
  "logged (run_flush k w) = logged w \<and> observed (run_flush k w) = observed w \<and>
   evaluations (run_flush k w) = evaluations w \<and> validations (run_flush k w) = validations w \<and>
   cache (run_flush k w) = cache w \<and>
   (loaders_only w \<longrightarrow> loaders_only (run_flush k w))"
  by (auto simp: run_flush_def Let_def loaders_only_def map_of_bc_update
      split: option.splits bcval.splits prod.splits)

lemma fold_run_flush_frame:
  "logged (fold run_flush ks w) = logged w \<and> observed (fold run_flush ks w) = observed w \<and>
   evaluations (fold run_flush ks w) = evaluations w \<and> validations (fold run_flush ks w) = validations w \<and>
   cache (fold run_flush ks w) = cache w \<and>
   (loaders_only w \<longrightarrow> loaders_only (fold run_flush ks w))"
proof (induction ks arbitrary: w)
  case Nil
  then show ?case by simp
next
  case (Cons k ks)
  show ?case using Cons [of "run_flush k w"] run_flush_frame [of k w] by simp
qed

lemma run_microtasks_frame:
  "logged (run_microtasks w) = logged w" "observed (run_microtasks w) = observed w"
  "evaluations (run_microtasks w) = evaluations w" "validations (run_microtasks w) = validations w"
  "cache (run_microtasks w) = cache w"
  "loaders_only w \<Longrightarrow> loaders_only (run_microtasks w)"
  using fold_run_flush_frame [of "microtasks w" w]
  by (simp_all add: run_microtasks_def loaders_only_def)

lemma new_call_loaders: "loaders_only (new_call w)"
  by (simp add: loaders_only_def new_call_def)

lemma new_call_frame:
  "logged (new_call w) = logged w" "observed (new_call w) = observed w"
  "evaluations (new_call w) = evaluations w" "validations (new_call w) = validations w"
  by (simp_all add: new_call_def)

lemma run_fallback_eq:
  "run_fallback fb e w = (fallback_value fb e, w\<lparr>logged := logged w @ fallback_log fb e\<rparr>)"
  by (simp add: run_fallback_def fallback_value_def fallback_log_def
      split: option.splits fallback_behaviour.splits)

lemma fail_eq:
  "fail cfg fb e oc w =
     (Resolved (fallback_value fb e),
      w\<lparr>logged := logged w @ e # fallback_log fb e,
        observed := observed w @ (if onError_configured cfg then [(e, oc)] else [])\<rparr>)"
  by (simp add: fail_def run_fallback_eq observe_def)

lemma observe_eq:
  "observe cfg e oc w = w\<lparr>observed := observed w @ (if onError_configured cfg then [(e, oc)] else [])\<rparr>"
  by (simp add: observe_def)

lemma observe_loaders: "loaders_only (observe cfg e oc w) = loaders_only w"
  by (simp add: observe_def loaders_only_def)

text \<open>In a call, whatever the root's entry point does, \<open>flushAllBatchQueues\<close> finds nothing
  to do afterwards: the batch context holds coalescers, never arrays.\<close>

lemma root_frame:
  assumes "evaluateInternal d (call_context s n) (new_call w) = (r, w1)"
  shows "loaders_only w1" "logged w1 = logged w" "observed w1 = observed w"
  using launch_keeps_loaders(1) [OF new_call_loaders assms] launch_frame(1) [OF assms]
  by (simp_all add: new_call_frame)

lemma matches_adhoc_built:
  assumes "segmentFn subject = Builds d"
  shows "matches cfg subject (AdHoc segmentFn) fb w =
     (case evaluateInternal d (call_context subject None) (new_call w) of
        (Threw t, w1) \<Rightarrow> fail cfg fb (to_Error t) (ObserverContext None None subject) w1
      | (Launched f, w1) \<Rightarrow>
          (case settle (promises (run_microtasks w1)) f of
             None \<Rightarrow> (Pending, run_microtasks w1)
           | Some (t, Inl e) \<Rightarrow> fail cfg fb e (ObserverContext None None subject) (run_microtasks w1)
           | Some (t, Inr b) \<Rightarrow> (Resolved b, run_microtasks w1)))"
proof -
  obtain r w1 where a: "evaluateInternal d (call_context subject None) (new_call w) = (r, w1)"
    by (metis prod.exhaust)
  note l = root_frame(1) [OF a]
  have l3: "loaders_only (run_microtasks w1)" using l by (rule run_microtasks_frame(6))
  show ?thesis
    using assms a l l3
    by (simp add: matches_def matches_adhoc_def call_context_def [symmetric] flushAll_loaders Let_def
        split: option.splits sum.splits launch.splits)
qed

lemma matches_named_built:
  assumes "segmentsObj cfg name = Some segmentFn" "segmentFn subject = Builds d"
  shows "matches cfg subject (Named name) fb w =
     (case evaluateInternal d (call_context subject (Some name)) (new_call w) of
        (Threw t, w1) \<Rightarrow>
          fail cfg fb (to_Error t) (ObserverContext None (Some name) subject)
            (run_microtasks
               (case t of
                  ThrownError e \<Rightarrow>
                    observe cfg e (ObserverContext (Some (root_matcherName d)) (Some name) subject) w1
                | ThrownValue v \<Rightarrow> w1))
      | (Launched f, w1) \<Rightarrow>
          (case settle (promises (run_microtasks w1)) f of
             None \<Rightarrow> (Pending, run_microtasks w1)
           | Some (t, Inl e) \<Rightarrow>
               fail cfg fb e (ObserverContext None (Some name) subject)
                 (observe cfg e (ObserverContext (Some (root_matcherName d)) (Some name) subject)
                    (run_microtasks w1))
           | Some (t, Inr b) \<Rightarrow> (Resolved b, run_microtasks w1)))"
proof -
  obtain r w1 where a: "evaluateInternal d (call_context subject (Some name)) (new_call w) = (r, w1)"
    by (metis prod.exhaust)
  note l = root_frame(1) [OF a]
  have l3: "loaders_only (run_microtasks w1)" using l by (rule run_microtasks_frame(6))
  have l4: "loaders_only (run_microtasks (observe cfg e oc w1))" for e oc
    using l by (simp add: run_microtasks_frame(6) observe_loaders)
  show ?thesis
    using assms a l l3 l4
    by (simp add: matches_def matches_named_def call_context_def [symmetric] flushAll_loaders
          observe_loaders Let_def
        split: option.splits sum.splits launch.splits thrown.splits)
qed

lemma matches_build_throws:
  "segmentFn subject = BuildThrows t \<Longrightarrow>
   matches cfg subject (AdHoc segmentFn) fb w =
     fail cfg fb (to_Error t) (ObserverContext None None subject) (new_call w)"
  "segmentsObj cfg name = Some segmentFn \<Longrightarrow> segmentFn subject = BuildThrows t \<Longrightarrow>
   matches cfg subject (Named name) fb w =
     fail cfg fb (to_Error t) (ObserverContext None (Some name) subject) (new_call w)"
  by (simp_all add: matches_def matches_adhoc_def matches_named_def Let_def)

lemma matches_unregistered:
  "segmentsObj cfg name = None \<Longrightarrow>
   matches cfg subject (Named name) fb w =
     (Resolved (fallback_value fb (Error (''Segment definition not found: '' @ name))),
      (new_call w)\<lparr>logged := logged w @ fallback_log fb (Error (''Segment definition not found: '' @ name))\<rparr>)"
  by (simp add: matches_def matches_named_def run_fallback_eq new_call_frame)

text \<open>What a call resolves to.\<close>

lemma matches_outcome:
  "segmentFn subject = Builds d \<Longrightarrow>
   fst (matches cfg subject (AdHoc segmentFn) fb w) =
     (case evaluation_result d (call_context subject None) (new_call w) of
        None \<Rightarrow> Pending
      | Some (t, Inl e) \<Rightarrow> Resolved (fallback_value fb e)
      | Some (t, Inr b) \<Rightarrow> Resolved b)"
  "segmentsObj cfg name = Some segmentFn \<Longrightarrow> segmentFn subject = Builds d \<Longrightarrow>
   fst (matches cfg subject (Named name) fb w) =
     (case evaluation_result d (call_context subject (Some name)) (new_call w) of
        None \<Rightarrow> Pending
      | Some (t, Inl e) \<Rightarrow> Resolved (fallback_value fb e)
      | Some (t, Inr b) \<Rightarrow> Resolved b)"
  "segmentFn subject = BuildThrows t \<Longrightarrow>
   fst (matches cfg subject (AdHoc segmentFn) fb w) = Resolved (fallback_value fb (to_Error t))"
  "segmentsObj cfg name = Some segmentFn \<Longrightarrow> segmentFn subject = BuildThrows t \<Longrightarrow>
   fst (matches cfg subject (Named name) fb w) = Resolved (fallback_value fb (to_Error t))"
  "segmentsObj cfg name = None \<Longrightarrow>
   fst (matches cfg subject (Named name) fb w) =
     Resolved (fallback_value fb (Error (''Segment definition not found: '' @ name)))"
  by (simp_all add: matches_adhoc_built matches_named_built matches_build_throws matches_unregistered
        evaluation_result_def fail_eq split: option.splits sum.splits prod.splits launch.splits)

text \<open>What a call of a built segment logs and reports.\<close>

lemma adhoc_reports:
  assumes "segmentFn subject = Builds d"
  shows "logged (snd (matches cfg subject (AdHoc segmentFn) fb w)) =
           logged w @
           (case evaluation_result d (call_context subject None) (new_call w) of
              Some (t, Inl e) \<Rightarrow> e # fallback_log fb e
            | _ \<Rightarrow> [])"
    and "observed (snd (matches cfg subject (AdHoc segmentFn) fb w)) =
           observed w @
           (case evaluation_result d (call_context subject None) (new_call w) of
              Some (t, Inl e) \<Rightarrow>
                if onError_configured cfg then [(e, ObserverContext None None subject)] else []
            | _ \<Rightarrow> [])"
proof -
  obtain r w1 where a: "evaluateInternal d (call_context subject None) (new_call w) = (r, w1)"
    by (metis prod.exhaust)
  note f = root_frame(2,3) [OF a]
  show "logged (snd (matches cfg subject (AdHoc segmentFn) fb w)) =
           logged w @
           (case evaluation_result d (call_context subject None) (new_call w) of
              Some (t, Inl e) \<Rightarrow> e # fallback_log fb e
            | _ \<Rightarrow> [])"
    using a f
    by (simp add: matches_adhoc_built [of segmentFn subject d cfg fb w, OF assms] evaluation_result_def fail_eq run_microtasks_frame
        split: option.splits sum.splits prod.splits launch.splits)
  show "observed (snd (matches cfg subject (AdHoc segmentFn) fb w)) =
           observed w @
           (case evaluation_result d (call_context subject None) (new_call w) of
              Some (t, Inl e) \<Rightarrow>
                if onError_configured cfg then [(e, ObserverContext None None subject)] else []
            | _ \<Rightarrow> [])"
    using a f
    by (simp add: matches_adhoc_built [of segmentFn subject d cfg fb w, OF assms] evaluation_result_def fail_eq run_microtasks_frame
        split: option.splits sum.splits prod.splits launch.splits)
qed

lemma named_reports:
  assumes "segmentsObj cfg name = Some segmentFn" "segmentFn subject = Builds d"
  shows "logged (snd (matches cfg subject (Named name) fb w)) =
           logged w @
           (case evaluation_result d (call_context subject (Some name)) (new_call w) of
              Some (t, Inl e) \<Rightarrow> e # fallback_log fb e
            | _ \<Rightarrow> [])"
    and "observed (snd (matches cfg subject (Named name) fb w)) =
           observed w @
           (case evaluation_result d (call_context subject (Some name)) (new_call w) of
              Some (t, Inl e) \<Rightarrow>
                if onError_configured cfg
                then (if root_threw_value d (call_context subject (Some name)) (new_call w) then []
                      else [(e, ObserverContext (Some (root_matcherName d)) (Some name) subject)]) @
                     [(e, ObserverContext None (Some name) subject)]
                else []
            | _ \<Rightarrow> [])"
proof -
  obtain r w1 where a: "evaluateInternal d (call_context subject (Some name)) (new_call w) = (r, w1)"
    by (metis prod.exhaust)
  note f = root_frame(2,3) [OF a]
  show "logged (snd (matches cfg subject (Named name) fb w)) =
           logged w @
           (case evaluation_result d (call_context subject (Some name)) (new_call w) of
              Some (t, Inl e) \<Rightarrow> e # fallback_log fb e
            | _ \<Rightarrow> [])"
    using a f
    by (simp add: matches_named_built [of cfg name segmentFn subject d fb w, OF assms] evaluation_result_def fail_eq observe_eq
          run_microtasks_frame to_Error_def
        split: option.splits sum.splits prod.splits launch.splits thrown.splits)
  show "observed (snd (matches cfg subject (Named name) fb w)) =
           observed w @
           (case evaluation_result d (call_context subject (Some name)) (new_call w) of
              Some (t, Inl e) \<Rightarrow>
                if onError_configured cfg
                then (if root_threw_value d (call_context subject (Some name)) (new_call w) then []
                      else [(e, ObserverContext (Some (root_matcherName d)) (Some name) subject)]) @
                     [(e, ObserverContext None (Some name) subject)]
                else []
            | _ \<Rightarrow> [])"
    using a f
    by (simp add: matches_named_built [of cfg name segmentFn subject d fb w, OF assms] evaluation_result_def root_threw_value_def fail_eq
          observe_eq run_microtasks_frame to_Error_def
        split: option.splits sum.splits prod.splits launch.splits thrown.splits)
qed

text \<open>
  Claim C2, as the code has it, for an ad-hoc builder and for a registered segment name.
  A failure is a throw of the segment definition or an error result of the root
  definition (an error its future settles to, or what its entry point throws). The
  failure is logged once (the log then holds the fallback's own error, if the fallback
  throws). The observer, when there is one, is called with the failure and a context that
  holds the subject: once, without segment name, for an ad-hoc builder; once with the
  segment name when a named segment's definition throws; twice when the root of a named
  segment fails, first with matcher name and segment name, then with the segment name
  (only the second call when the root's entry point threw a value that is not an
  \<^verbatim>\<open>Error\<close>). Without failure nothing is logged and the observer is not called.
\<close>

theorem failure_reporting:
  "(segmentFn subject = BuildThrows t \<longrightarrow>
      logged (snd (matches cfg subject (AdHoc segmentFn) fb w)) =
        logged w @ to_Error t # fallback_log fb (to_Error t) \<and>
      observed (snd (matches cfg subject (AdHoc segmentFn) fb w)) =
        observed w @ (if onError_configured cfg
                      then [(to_Error t, ObserverContext None None subject)] else [])) \<and>
   (segmentFn subject = Builds d \<and>
    evaluation_result d (call_context subject None) (new_call w) = Some (tick, Inl e) \<longrightarrow>
      logged (snd (matches cfg subject (AdHoc segmentFn) fb w)) = logged w @ e # fallback_log fb e \<and>
      observed (snd (matches cfg subject (AdHoc segmentFn) fb w)) =
        observed w @ (if onError_configured cfg then [(e, ObserverContext None None subject)] else [])) \<and>
   (segmentFn subject = Builds d \<and>
    evaluation_result d (call_context subject None) (new_call w) = Some (tick, Inr b) \<longrightarrow>
      logged (snd (matches cfg subject (AdHoc segmentFn) fb w)) = logged w \<and>
      observed (snd (matches cfg subject (AdHoc segmentFn) fb w)) = observed w) \<and>
   (segmentsObj cfg name = Some segmentFn \<and> segmentFn subject = BuildThrows t \<longrightarrow>
      logged (snd (matches cfg subject (Named name) fb w)) =
        logged w @ to_Error t # fallback_log fb (to_Error t) \<and>
      observed (snd (matches cfg subject (Named name) fb w)) =
        observed w @ (if onError_configured cfg
                      then [(to_Error t, ObserverContext None (Some name) subject)] else [])) \<and>
   (segmentsObj cfg name = Some segmentFn \<and> segmentFn subject = Builds d \<and>
    evaluation_result d (call_context subject (Some name)) (new_call w) = Some (tick, Inl e) \<longrightarrow>
      logged (snd (matches cfg subject (Named name) fb w)) = logged w @ e # fallback_log fb e \<and>
      observed (snd (matches cfg subject (Named name) fb w)) =
        observed w @ (if onError_configured cfg
                      then (if root_threw_value d (call_context subject (Some name)) (new_call w) then []
                            else [(e, ObserverContext (Some (root_matcherName d)) (Some name) subject)]) @
                           [(e, ObserverContext None (Some name) subject)]
                      else [])) \<and>
   (segmentsObj cfg name = Some segmentFn \<and> segmentFn subject = Builds d \<and>
    evaluation_result d (call_context subject (Some name)) (new_call w) = Some (tick, Inr b) \<longrightarrow>
      logged (snd (matches cfg subject (Named name) fb w)) = logged w \<and>
      observed (snd (matches cfg subject (Named name) fb w)) = observed w)"
proof -
  have a: "segmentFn subject = Builds d \<Longrightarrow>
      logged (snd (matches cfg subject (AdHoc segmentFn) fb w)) =
           logged w @
           (case evaluation_result d (call_context subject None) (new_call w) of
              Some (t, Inl e) \<Rightarrow> e # fallback_log fb e
            | _ \<Rightarrow> []) \<and>
      observed (snd (matches cfg subject (AdHoc segmentFn) fb w)) =
           observed w @
           (case evaluation_result d (call_context subject None) (new_call w) of
              Some (t, Inl e) \<Rightarrow>
                if onError_configured cfg then [(e, ObserverContext None None subject)] else []
            | _ \<Rightarrow> [])"
    using adhoc_reports [of segmentFn subject d cfg fb w] by simp
  have n: "segmentsObj cfg name = Some segmentFn \<Longrightarrow> segmentFn subject = Builds d \<Longrightarrow>
      logged (snd (matches cfg subject (Named name) fb w)) =
           logged w @
           (case evaluation_result d (call_context subject (Some name)) (new_call w) of
              Some (t, Inl e) \<Rightarrow> e # fallback_log fb e
            | _ \<Rightarrow> []) \<and>
      observed (snd (matches cfg subject (Named name) fb w)) =
           observed w @
           (case evaluation_result d (call_context subject (Some name)) (new_call w) of
              Some (t, Inl e) \<Rightarrow>
                if onError_configured cfg
                then (if root_threw_value d (call_context subject (Some name)) (new_call w) then []
                      else [(e, ObserverContext (Some (root_matcherName d)) (Some name) subject)]) @
                     [(e, ObserverContext None (Some name) subject)]
                else []
            | _ \<Rightarrow> [])"
    using named_reports [of cfg name segmentFn subject d fb w] by simp
  show ?thesis
    using a n
    by (auto simp: matches_build_throws fail_eq new_call_frame)
qed

lemmas call_defs =
  matches_def matches_named_def matches_adhoc_def adhoc_def evaluateInternal_wrapped_def
  evaluate_single_def evaluate_batch_def validate_argument_def DataLoader_load_def
  DataLoader_flush_def call_evaluateBatch_def swap_out_def new_DataLoader_def run_microtasks_def
  run_flush_def flushAllBatchQueues_def flush_queue_def new_call_def initial_world_def fail_def
  run_fallback_def observe_def Let_def makeMatcherCacheKey_def getCacheKey_def
  context_object_def segmentName_or_unknown_def to_Error_def root_matcherName_def
  isBatchMatcher_def resolve_def errAsync_def call_context_def evaluation_result_def
  wrappedMatchers_evaluateBatch_def bc_get_def Object_prototype_def root_threw_value_def

lemmas example_defs =
  always_def number_matcher_def number_schema_def thrower_def rejecter_def batch_thrower_def
  batch_always_def schema_thrower_def throwing_schema_def T_def F_def in_segment_def

text \<open>The claim as stated fails: in the named path one failure reaches the observer twice,
  once from the wrapper of the root definition and once from the segment level.\<close>

theorem observer_called_twice:
  "logged (snd (matches
      \<lparr>segmentsObj = [''s'' \<mapsto> (\<lambda>subject. Builds (Wrapped ''boom'' thrower JUndefined))],
       onError_configured = True\<rparr>
      (JObj []) (Named ''s'') None initial_world)) =
     [MatcherEvaluationError 0 ''boom'' ''s'' (JObj []) (Error ''fail'')] \<and>
   observed (snd (matches
      \<lparr>segmentsObj = [''s'' \<mapsto> (\<lambda>subject. Builds (Wrapped ''boom'' thrower JUndefined))],
       onError_configured = True\<rparr>
      (JObj []) (Named ''s'') None initial_world)) =
     [(MatcherEvaluationError 0 ''boom'' ''s'' (JObj []) (Error ''fail''),
       ObserverContext (Some ''boom'') (Some ''s'') (JObj [])),
      (MatcherEvaluationError 0 ''boom'' ''s'' (JObj []) (Error ''fail''),
       ObserverContext None (Some ''s'') (JObj []))]"
  by (simp add: call_defs example_defs)

theorem failure_reporting_witness:
  "(\<lambda>subject. BuildThrows (ThrownValue ''oops'')) (JObj []) = BuildThrows (ThrownValue ''oops'') \<and>
   logged (snd (matches \<lparr>segmentsObj = Map.empty, onError_configured = True\<rparr> (JObj [])
                  (AdHoc (\<lambda>subject. BuildThrows (ThrownValue ''oops''))) None initial_world)) =
     [Error ''oops''] \<and>
   observed (snd (matches \<lparr>segmentsObj = Map.empty, onError_configured = True\<rparr> (JObj [])
                  (AdHoc (\<lambda>subject. BuildThrows (ThrownValue ''oops''))) None initial_world)) =
     [(Error ''oops'', ObserverContext None None (JObj []))] \<and>
   segmentsObj \<lparr>segmentsObj = [''s'' \<mapsto> (\<lambda>subject. Builds (Wrapped ''boom'' thrower JUndefined))],
                onError_configured = True\<rparr> ''s'' =
     Some (\<lambda>subject. Builds (Wrapped ''boom'' thrower JUndefined)) \<and>
   evaluation_result (Wrapped ''boom'' thrower JUndefined) (call_context (JObj []) (Some ''s''))
       (new_call initial_world) =
     Some (0, Inl (MatcherEvaluationError 0 ''boom'' ''s'' (JObj []) (Error ''fail''))) \<and>
   observed (snd (matches
      \<lparr>segmentsObj = [''s'' \<mapsto> (\<lambda>subject. Builds (Wrapped ''boom'' thrower JUndefined))],
       onError_configured = True\<rparr>
      (JObj []) (Named ''s'') (Some (\<lambda>errors. FallbackReturns True)) initial_world)) =
     [(MatcherEvaluationError 0 ''boom'' ''s'' (JObj []) (Error ''fail''),
       ObserverContext (Some ''boom'') (Some ''s'') (JObj [])),
      (MatcherEvaluationError 0 ''boom'' ''s'' (JObj []) (Error ''fail''),
       ObserverContext None (Some ''s'') (JObj []))] \<and>
   evaluation_result (Wrapped ''v'' schema_thrower (JNum 1)) (call_context (JObj []) (Some ''s''))
       (new_call initial_world) = Some (0, Inl (Error ''invalid'')) \<and>
   observed (snd (matches
      \<lparr>segmentsObj = [''s'' \<mapsto> (\<lambda>subject. Builds (Wrapped ''v'' schema_thrower (JNum 1)))],
       onError_configured = True\<rparr>
      (JObj []) (Named ''s'') None initial_world)) =
     [(Error ''invalid'', ObserverContext (Some ''v'') (Some ''s'') (JObj [])),
      (Error ''invalid'', ObserverContext None (Some ''s'') (JObj []))] \<and>
   evaluation_result T (call_context (JObj []) None) (new_call initial_world) = Some (0, Inr True) \<and>
   logged (snd (matches \<lparr>segmentsObj = Map.empty, onError_configured = True\<rparr> (JObj [])
                  (AdHoc (\<lambda>subject. Builds T)) None initial_world)) = []"
proof -
  let ?E = "MatcherEvaluationError 0 ''boom'' ''s'' (JObj []) (Error ''fail'')"
  let ?cfg = "\<lparr>segmentsObj = [''s'' \<mapsto> (\<lambda>subject. Builds (Wrapped ''boom'' thrower JUndefined))],
       onError_configured = True\<rparr>"
  let ?cfg' = "\<lparr>segmentsObj = [''s'' \<mapsto> (\<lambda>subject. Builds (Wrapped ''v'' schema_thrower (JNum 1)))],
       onError_configured = True\<rparr>"
  have r1: "evaluation_result (Wrapped ''boom'' thrower JUndefined) (call_context (JObj []) (Some ''s''))
       (new_call initial_world) = Some (0, Inl ?E)"
    by (simp add: call_defs example_defs)
  have t1: "\<not> root_threw_value (Wrapped ''boom'' thrower JUndefined) (call_context (JObj []) (Some ''s''))
       (new_call initial_world)"
    by (simp add: call_defs example_defs)
  have r2: "evaluation_result T (call_context (JObj []) None) (new_call initial_world) = Some (0, Inr True)"
    by (simp add: call_defs example_defs)
  have r3: "evaluation_result (Wrapped ''v'' schema_thrower (JNum 1)) (call_context (JObj []) (Some ''s''))
       (new_call initial_world) = Some (0, Inl (Error ''invalid''))"
    by (simp add: call_defs example_defs)
  have t3: "\<not> root_threw_value (Wrapped ''v'' schema_thrower (JNum 1)) (call_context (JObj []) (Some ''s''))
       (new_call initial_world)"
    by (simp add: call_defs example_defs)
  have i: "logged initial_world = []" "observed initial_world = []" by (simp_all add: initial_world_def)
  note a = failure_reporting [of "\<lambda>subject. BuildThrows (ThrownValue ''oops'')" "JObj []" "ThrownValue ''oops''"
             "\<lparr>segmentsObj = Map.empty, onError_configured = True\<rparr>" None initial_world]
  note b = failure_reporting [of "\<lambda>subject. Builds (Wrapped ''boom'' thrower JUndefined)" "JObj []" _
             ?cfg "Some (\<lambda>errors. FallbackReturns True)" initial_world
             "Wrapped ''boom'' thrower JUndefined" 0 ?E _ "''s''"]
  note c = failure_reporting [of "\<lambda>subject. Builds T" "JObj []" _
             "\<lparr>segmentsObj = Map.empty, onError_configured = True\<rparr>" None initial_world T 0 _ True]
  note d = failure_reporting [of "\<lambda>subject. Builds (Wrapped ''v'' schema_thrower (JNum 1))" "JObj []" _
             ?cfg' None initial_world
             "Wrapped ''v'' schema_thrower (JNum 1)" 0 "Error ''invalid''" _ "''s''"]
  from a have 1: "logged (snd (matches \<lparr>segmentsObj = Map.empty, onError_configured = True\<rparr> (JObj [])
                  (AdHoc (\<lambda>subject. BuildThrows (ThrownValue ''oops''))) None initial_world)) =
     [Error ''oops''] \<and>
   observed (snd (matches \<lparr>segmentsObj = Map.empty, onError_configured = True\<rparr> (JObj [])
                  (AdHoc (\<lambda>subject. BuildThrows (ThrownValue ''oops''))) None initial_world)) =
     [(Error ''oops'', ObserverContext None None (JObj []))]"
    by (simp add: i to_Error_def fallback_log_def)
  from b r1 t1 have 2: "observed (snd (matches ?cfg (JObj []) (Named ''s'')
        (Some (\<lambda>errors. FallbackReturns True)) initial_world)) =
     [(?E, ObserverContext (Some ''boom'') (Some ''s'') (JObj [])),
      (?E, ObserverContext None (Some ''s'') (JObj []))]"
    by (simp add: i root_matcherName_def thrower_def)
  from c r2 have 3: "logged (snd (matches \<lparr>segmentsObj = Map.empty, onError_configured = True\<rparr> (JObj [])
                  (AdHoc (\<lambda>subject. Builds T)) None initial_world)) = []"
    by (simp add: i)
  from d r3 t3 have 4: "observed (snd (matches ?cfg' (JObj []) (Named ''s'') None initial_world)) =
     [(Error ''invalid'', ObserverContext (Some ''v'') (Some ''s'') (JObj [])),
      (Error ''invalid'', ObserverContext None (Some ''s'') (JObj []))]"
    by (simp add: i root_matcherName_def schema_thrower_def)
  from 1 2 3 4 r1 r2 r3 show ?thesis by simp
qed

text \<open>When the entry point of the root throws a value that is not an \<^verbatim>\<open>Error\<close>, the wrapper of
  the named path does not call the observer; the segment level does, with the value's text
  as an \<^verbatim>\<open>Error\<close>.\<close>

lemma thrown_value_observed_once:
  "observed (snd (matches
      \<lparr>segmentsObj = [''s'' \<mapsto> (\<lambda>subject. Builds (Wrapped ''v''
           \<lparr>arguments = Some (\<lambda>v. ValidateThrows (ThrownValue ''oops'')),
            evaluate = Some (\<lambda>c. Returns 0 True), evaluateBatch = None, config_toNode = None\<rparr>
           (JNum 1)))],
       onError_configured = True\<rparr>
      (JObj []) (Named ''s'') None initial_world)) =
     [(Error ''oops'', ObserverContext None (Some ''s'') (JObj []))]"
  by (simp add: call_defs)

section \<open>A batch evaluator that throws\<close>

lemma resolve_settled: "settled (resolve p r ps) p \<noteq> None"
  by (simp add: resolve_def split: option.splits)

lemma resolve_keeps: "settled ps p \<noteq> None \<Longrightarrow> settled (resolve p' r ps) p \<noteq> None"
  by (simp add: resolve_def split: option.splits)

lemma resolve_false_keeps: "settled ps p \<noteq> None \<Longrightarrow> settled (resolve_false t q ps) p \<noteq> None"
proof (induction q arbitrary: ps)
  case Nil
  then show ?case by simp
next
  case (Cons e q)
  from Cons.IH [OF resolve_keeps [OF Cons.prems]] show ?case by simp
qed

lemma resolve_false_settles: "x \<in> set q \<Longrightarrow> settled (resolve_false t q ps) (snd x) \<noteq> None"
proof (induction q arbitrary: ps)
  case Nil
  then show ?case by simp
next
  case (Cons e q)
  then show ?case using resolve_false_keeps [OF resolve_settled] by auto
qed

text \<open>On the arrays it expects, \<open>flushAllBatchQueues\<close> does what claim C3 says: when the
  evaluator fails, every resolver of the queue has been called afterwards.\<close>

lemma flush_queue_failure:
  assumes "map_of (batchContext w) name = Some (Queue queue)" "ms name = Some evb"
    and "failure (evb (map fst queue)) = Some (t, e)" "x \<in> set queue"
  shows "settled (promises (flush_queue ms name w)) (snd x) \<noteq> None"
  using assms resolve_false_settles [of x queue]
  by (cases queue) (auto simp: flush_queue_def Let_def)

lemma flushAllBatchQueues_array_example:
  "settled (promises (flushAllBatchQueues
      (\<lambda>name. if name = ''test''
               then Some (\<lambda>batch. \<lparr>resolutions = [], failure = Some (0, ThrownError (Error ''fail''))\<rparr>)
               else None)
      (initial_world\<lparr>batchContext := [(''test'', Queue [(JObj [(''params'', JObj [])], 0)])]\<rparr>))) 0 =
   Some (0, False)"
  by (simp add: flushAllBatchQueues_def flush_queue_def initial_world_def resolve_def Let_def)

text \<open>
  Claim C3 at a concrete call: an ad-hoc segment whose root is a batched matcher, with an
  evaluator that throws. The evaluator is called once, with the one request; the promise
  of the request (promise 0, cached under the matcher's key) is never resolved, neither
  by the coalescer nor by \<open>flushAllBatchQueues\<close>, nothing is logged, and the promise that
  \<^verbatim>\<open>matches()\<close> returned stays pending.
\<close>

theorem batch_failure_leaves_request_pending:
  "fst (matches \<lparr>segmentsObj = Map.empty, onError_configured = True\<rparr> (JObj [])
          (adhoc (Wrapped ''b'' batch_thrower JUndefined)) None initial_world) = Pending \<and>
   batchEvaluations (snd (matches \<lparr>segmentsObj = Map.empty, onError_configured = True\<rparr> (JObj [])
          (adhoc (Wrapped ''b'' batch_thrower JUndefined)) None initial_world)) =
     [[context_object (JObj []) None None]] \<and>
   cache (snd (matches \<lparr>segmentsObj = Map.empty, onError_configured = True\<rparr> (JObj [])
          (adhoc (Wrapped ''b'' batch_thrower JUndefined)) None initial_world))
      (makeMatcherCacheKey ''b'' JUndefined) = Some (Await 0) \<and>
   settled (promises (snd (matches \<lparr>segmentsObj = Map.empty, onError_configured = True\<rparr> (JObj [])
          (adhoc (Wrapped ''b'' batch_thrower JUndefined)) None initial_world))) 0 = None \<and>
   settled (promises (flushAllBatchQueues wrappedMatchers_evaluateBatch
      (snd (matches \<lparr>segmentsObj = Map.empty, onError_configured = True\<rparr> (JObj [])
          (adhoc (Wrapped ''b'' batch_thrower JUndefined)) None initial_world)))) 0 = None \<and>
   logged (snd (matches \<lparr>segmentsObj = Map.empty, onError_configured = True\<rparr> (JObj [])
          (adhoc (Wrapped ''b'' batch_thrower JUndefined)) None initial_world)) = []"
  by (simp add: call_defs example_defs)

text \<open>
  Claim C1 at a concrete call: a registered segment whose root is a batched matcher with an
  evaluator that throws, and a fallback. The call resolves neither to \<^verbatim>\<open>false\<close> nor to the
  fallback's boolean: its promise stays pending.
\<close>

theorem matches_pending_on_batch_failure:
  "fst (matches
      \<lparr>segmentsObj = [''s'' \<mapsto> (\<lambda>subject. Builds (AndDef [T, Wrapped ''b'' batch_thrower JUndefined]))],
       onError_configured = True\<rparr>
      (JObj []) (Named ''s'') (Some (\<lambda>errors. FallbackReturns True)) initial_world) = Pending"
  by (simp add: call_defs example_defs)

section \<open>One evaluator call per reference key and call\<close>

text \<open>
  Claim C5 at a concrete call. The segment \<open>s\<close> is \<open>and(boom, boom)\<close>: the matcher \<open>boom\<close>,
  without argument, is referenced twice. When its evaluator throws synchronously, the
  \<^verbatim>\<open>catch\<close> block returns the error without storing it in the cache, and one call of
  \<^verbatim>\<open>matches()\<close> invokes the evaluator twice, once for each reference. When the evaluator
  returns a promise that rejects, the result is stored and the evaluator is invoked once.
\<close>

theorem throwing_evaluator_invoked_twice:
  "evaluations (snd (matches
      \<lparr>segmentsObj = [''s'' \<mapsto> (\<lambda>subject. Builds (AndDef [Wrapped ''boom'' thrower JUndefined,
                                                         Wrapped ''boom'' thrower JUndefined]))],
       onError_configured = False\<rparr>
      (JObj []) (Named ''s'') None initial_world)) =
     [(''boom'', JUndefined), (''boom'', JUndefined)] \<and>
   evaluations (snd (matches
      \<lparr>segmentsObj = [''s'' \<mapsto> (\<lambda>subject. Builds (AndDef [Wrapped ''boom'' (rejecter 0) JUndefined,
                                                         Wrapped ''boom'' (rejecter 0) JUndefined]))],
       onError_configured = False\<rparr>
      (JObj []) (Named ''s'') None initial_world)) =
     [(''boom'', JUndefined)]"
  by (simp add: call_defs example_defs)

subsection \<open>Where the claim holds\<close>

lemma count_key_append [simp]:
  "count_key k (evs @ [(n, a)]) = count_key k evs + (if makeMatcherCacheKey n a = k then 1 else 0)"
  by (simp add: count_key_def)

text \<open>What one call of a wrapped matcher's entry point does to the cache and to the record
  of evaluator calls.\<close>

lemma evaluate_batch_effect:
  "evaluate_batch evb lk key req ctx w = (r, w') \<Longrightarrow>
     evaluations w' = evaluations w \<and> (cache w' = cache w \<or> (\<exists>f. cache w' = (cache w)(key \<mapsto> f)))"
  by (auto simp: evaluate_batch_def Let_def
      split: if_splits option.splits bcval.splits prod.splits property.splits)

lemma evaluate_single_effect:
  "evaluate_single n m a key req ctx w = (r, w') \<Longrightarrow>
     (evaluations w' = evaluations w \<or> evaluations w' = evaluations w @ [(n, a)]) \<and>
     (cache w' = cache w \<or> (\<exists>f. cache w' = (cache w)(key \<mapsto> f)))"
  by (auto simp: evaluate_single_def Let_def split: option.splits behaviour.splits)

lemma validate_argument_effect:
  "validate_argument sch n a ctx w = (r, w') \<Longrightarrow> evaluations w' = evaluations w \<and> cache w' = cache w"
  by (auto simp: validate_argument_def Let_def split: validation.splits)

lemma wrapped_effect:
  assumes "evaluateInternal_wrapped n m a ctx w = (r, w')"
  shows "(evaluations w' = evaluations w \<or>
          evaluations w' = evaluations w @ [(n, if arguments m = None then JUndefined else a)]) \<and>
         (cache w' = cache w \<or> (\<exists>f. cache w' = (cache w)(leaf_key (n, m, a) \<mapsto> f)))"
proof (cases "arguments m")
  case None
  show ?thesis
  proof (cases "cache w (makeMatcherCacheKey n JUndefined)")
    case (Some f)
    with None assms show ?thesis by (simp add: evaluateInternal_wrapped_def)
  next
    case cn: None
    show ?thesis
    proof (cases "evaluateBatch m")
      case (Some evb)
      with None cn assms
      have "evaluate_batch evb n (makeMatcherCacheKey n JUndefined)
              (context_object (params ctx) None (segmentName ctx)) ctx w = (r, w')"
        by (simp add: evaluateInternal_wrapped_def)
      from evaluate_batch_effect [OF this] None show ?thesis by (simp add: leaf_key_def)
    next
      case en: None
      with None cn assms
      have "evaluate_single n m JUndefined (makeMatcherCacheKey n JUndefined)
              (context_object (params ctx) None (segmentName ctx)) ctx w = (r, w')"
        by (simp add: evaluateInternal_wrapped_def)
      from evaluate_single_effect [OF this] None show ?thesis by (simp add: leaf_key_def)
    qed
  qed
next
  case (Some sch)
  show ?thesis
  proof (cases "cache w (makeMatcherCacheKey n a)")
    case (Some f)
    with \<open>arguments m = Some sch\<close> assms show ?thesis by (simp add: evaluateInternal_wrapped_def)
  next
    case cn: None
    obtain vr w1 where v: "validate_argument sch n a ctx w = (vr, w1)" by (metis prod.exhaust)
    note e1 = validate_argument_effect [OF v]
    show ?thesis
    proof (cases vr)
      case (Threw t)
      with Some cn v assms e1 show ?thesis by (simp add: evaluateInternal_wrapped_def)
    next
      case (Launched x)
      show ?thesis
      proof (cases x)
        case (Inl e)
        with Some cn v Launched assms e1 show ?thesis by (simp add: evaluateInternal_wrapped_def)
      next
        case (Inr y)
        show ?thesis
        proof (cases "evaluateBatch m")
          case b: (Some evb)
          with Some cn v Launched Inr assms
          have "evaluate_batch evb (n @ '':'' @ ToString (stableStringify a)) (makeMatcherCacheKey n a)
                  (context_object (params ctx) (Some y) (segmentName ctx)) ctx w1 = (r, w')"
            by (simp add: evaluateInternal_wrapped_def)
          from evaluate_batch_effect [OF this] e1 Some show ?thesis
            by (simp add: leaf_key_def)
        next
          case en: None
          with Some cn v Launched Inr assms
          have "evaluate_single n m a (makeMatcherCacheKey n a)
                  (context_object (params ctx) (Some y) (segmentName ctx)) ctx w1 = (r, w')"
            by (simp add: evaluateInternal_wrapped_def)
          from evaluate_single_effect [OF this] e1 Some show ?thesis by (simp add: leaf_key_def)
        qed
      qed
    qed
  qed
qed

lemma wrapped_other_key:
  assumes "evaluateInternal_wrapped n m a ctx w = (r, w')" "leaf_key (n, m, a) \<noteq> k"
  shows "cache w' k = cache w k \<and> count_key k (evaluations w') = count_key k (evaluations w)"
proof -
  have "makeMatcherCacheKey n (if arguments m = None then JUndefined else a) \<noteq> k"
    using assms(2) by (simp add: leaf_key_def)
  with wrapped_effect [OF assms(1)] assms(2) show ?thesis by auto
qed

lemma wrapped_dispatch:
  assumes "dispatches ctx (n, m, a)" "cache w (leaf_key (n, m, a)) = None"
  shows "\<exists>f w'. evaluateInternal_wrapped n m a ctx w = (Launched f, w') \<and>
           cache w' (leaf_key (n, m, a)) = Some f \<and>
           count_key (leaf_key (n, m, a)) (evaluations w') = Suc (count_key (leaf_key (n, m, a)) (evaluations w))"
proof (cases "arguments m")
  case None
  from assms(1) None obtain ev where ev: "evaluateBatch m = None" "evaluate m = Some ev"
    "\<forall>t. ev (context_object (params ctx) None (segmentName ctx)) \<noteq> Throws t"
    by (auto simp: dispatches_def)
  show ?thesis
    using None assms(2) ev
    by (cases "ev (context_object (params ctx) None (segmentName ctx))")
       (simp_all add: evaluateInternal_wrapped_def evaluate_single_def leaf_key_def Let_def)
next
  case (Some sch)
  from assms(1) Some obtain ev v where ev: "evaluateBatch m = None" "evaluate m = Some ev"
    "sch a = Value v" "\<forall>t. ev (context_object (params ctx) (Some v) (segmentName ctx)) \<noteq> Throws t"
    by (auto simp: dispatches_def)
  show ?thesis
    using Some assms(2) ev
    by (cases "ev (context_object (params ctx) (Some v) (segmentName ctx))")
       (simp_all add: evaluateInternal_wrapped_def evaluate_single_def validate_argument_def
          leaf_key_def Let_def)
qed

lemma wrapped_hit:
  assumes "cache w (leaf_key (n, m, a)) = Some f"
  shows "evaluateInternal_wrapped n m a ctx w = (Launched f, w)"
  using assms by (cases "arguments m") (simp_all add: evaluateInternal_wrapped_def leaf_key_def)

lemma wrapped_once:
  assumes "leaf_key (n, m, a) = k \<longrightarrow> dispatches ctx (n, m, a)" "once c k w"
    and "evaluateInternal_wrapped n m a ctx w = (r, w')"
  shows "once c k w' \<and> (leaf_key (n, m, a) = k \<or> cache w k \<noteq> None \<longrightarrow> cache w' k \<noteq> None)"
proof (cases "leaf_key (n, m, a) = k")
  case False
  with wrapped_other_key [OF assms(3) False] assms(2) show ?thesis by (simp add: once_def)
next
  case True
  show ?thesis
  proof (cases "cache w k")
    case None
    with assms(2) have c: "count_key k (evaluations w) = c" by (simp add: once_def)
    from wrapped_dispatch [of ctx n m a w] assms(1) True None assms(3) c
    show ?thesis by (auto simp: once_def)
  next
    case (Some f)
    with wrapped_hit [of w n m a f ctx] True assms(2,3) show ?thesis by auto
  qed
qed

lemma launch_once:
  "hasBatchContext ctx \<Longrightarrow> loaders_only w \<Longrightarrow> \<forall>l\<in>set (leaves d). launches l \<Longrightarrow>
   \<forall>l\<in>set (leaves d). leaf_key l = k \<longrightarrow> dispatches ctx l \<Longrightarrow> once c k w \<Longrightarrow>
     launched_once c k (leaves d) w (snd (evaluateInternal d ctx w))"
  "hasBatchContext ctx \<Longrightarrow> loaders_only w \<Longrightarrow> \<forall>l\<in>set (concat (map leaves ds)). launches l \<Longrightarrow>
   \<forall>l\<in>set (concat (map leaves ds)). leaf_key l = k \<longrightarrow> dispatches ctx l \<Longrightarrow> once c k w \<Longrightarrow>
     launched_once c k (concat (map leaves ds)) w (snd (evaluateInternal_all ds ctx w))"
proof (induction d ctx w and ds ctx w rule: evaluateInternal_evaluateInternal_all.induct)
  case (1 name matcherObj matcherArg ctx w)
  obtain r w' where e: "evaluateInternal_wrapped name matcherObj matcherArg ctx w = (r, w')"
    by (metis prod.exhaust)
  from wrapped_keeps_loaders [OF 1(2) e] have "loaders_only w'" .
  with wrapped_once [of name matcherObj matcherArg k ctx c w r w'] 1 e
  show ?case by (auto simp: launched_once_def)
next
  case (2 ms ctx w)
  from 2(1) [OF 2(2,3) _ _ 2(6)] 2(4,5)
  show ?case by (auto simp: launched_once_def split: prod.splits launch.splits)
next
  case (3 ms ctx w)
  from 3(1) [OF 3(2,3) _ _ 3(6)] 3(4,5)
  show ?case by (auto simp: launched_once_def split: prod.splits launch.splits)
next
  case (4 m ctx w)
  from 4(1) [OF 4(2,3) _ _ 4(6)] 4(4,5)
  show ?case by (auto simp: launched_once_def split: prod.splits launch.splits)
next
  case (5 ctx w)
  then show ?case by (simp add: launched_once_def)
next
  case (6 m ms ctx w)
  from 6(5) have lm: "\<forall>l\<in>set (leaves m). launches l"
    and lms: "\<forall>l\<in>set (concat (map leaves ms)). launches l" by auto
  from 6(6) have dm: "\<forall>l\<in>set (leaves m). leaf_key l = k \<longrightarrow> dispatches ctx l"
    and dms: "\<forall>l\<in>set (concat (map leaves ms)). leaf_key l = k \<longrightarrow> dispatches ctx l" by auto
  from launch_total(1) [OF 6(3,4) lm] obtain f w1 where
    h: "evaluateInternal m ctx w = (Launched f, w1)" "loaders_only w1" by blast
  from 6(1) [OF 6(3,4) lm dm 6(7)] h(1)
  have a: "launched_once c k (leaves m) w w1" by simp
  hence o1: "once c k w1" by (simp add: launched_once_def)
  from 6(2) [OF h(1) [symmetric] refl 6(3) h(2) lms dms o1]
  have b: "launched_once c k (concat (map leaves ms)) w1 (snd (evaluateInternal_all ms ctx w1))" .
  have s: "snd (evaluateInternal_all (m # ms) ctx w) = snd (evaluateInternal_all ms ctx w1)"
    using h(1) by (simp split: prod.splits launch.splits)
  from a b show ?case unfolding s launched_once_def by auto
qed

text \<open>The rest of a call leaves the record of evaluator calls as the launch of the root
  left it.\<close>

lemma matches_evaluations:
  assumes "built cfg target subject = Some (d, ctx)"
  shows "evaluations (snd (matches cfg subject target fb w)) =
         evaluations (snd (evaluateInternal d ctx (new_call w)))"
proof (cases target)
  case (AdHoc segmentFn)
  with assms have b: "segmentFn subject = Builds d" "ctx = call_context subject None"
    by (auto simp: built_def split: build.splits)
  show ?thesis
    unfolding AdHoc b(2)
      matches_adhoc_built [of segmentFn subject d cfg fb w, OF b(1)]
    by (simp add: fail_eq run_microtasks_frame
        split: option.splits prod.splits sum.splits launch.splits)
next
  case (Named name)
  with assms obtain segmentFn where b: "segmentsObj cfg name = Some segmentFn"
    "segmentFn subject = Builds d" "ctx = call_context subject (Some name)"
    by (auto simp: built_def split: build.splits option.splits)
  show ?thesis
    unfolding Named b(3)
      matches_named_built [of cfg name segmentFn subject d fb w, OF b(1,2)]
    by (simp add: fail_eq observe_eq run_microtasks_frame
        split: option.splits prod.splits sum.splits launch.splits thrown.splits)
qed

lemma built_context: "built cfg target subject = Some (d, ctx) \<Longrightarrow> hasBatchContext ctx"
  by (auto simp: built_def call_context_def split: segment_ref.splits build.splits option.splits)

lemma once_per_call:
  assumes "built cfg target subject = Some (d, ctx)"
    and "\<forall>l'\<in>set (leaves d). launches l'"
    and "l \<in> set (leaves d)"
    and "\<forall>l'\<in>set (leaves d). leaf_key l' = leaf_key l \<longrightarrow> dispatches ctx l'"
  shows "count_key (leaf_key l) (evaluations (snd (matches cfg subject target fb w))) =
         Suc (count_key (leaf_key l) (evaluations w))"
proof -
  let ?k = "leaf_key l"
  have o: "once (count_key ?k (evaluations w)) ?k (new_call w)"
    by (simp add: once_def new_call_frame)
  from launch_once(1) [OF built_context [OF assms(1)] new_call_loaders assms(2,4) o] assms(3)
  have "count_key ?k (evaluations (snd (evaluateInternal d ctx (new_call w)))) =
        Suc (count_key ?k (evaluations w))"
    by (auto simp: launched_once_def once_def)
  thus ?thesis by (simp add: matches_evaluations [OF assms(1)])
qed

text \<open>
  A segment builds the definition \<open>d\<close> for the subject, and the entry point of no reference
  in \<open>d\<close> throws synchronously; \<open>l\<close> is a matcher reference occurring in \<open>d\<close>, any number of
  times; every reference in \<open>d\<close> with the cache key of \<open>l\<close> is in single evaluate mode, binds
  an argument its schema accepts and has an evaluator that does not throw synchronously.
  Then one call of \<open>matches\<close> adds exactly one evaluator call for that key to those recorded
  before, and a second call of \<open>matches\<close> adds exactly one more: the cache is per call.
\<close>

lemma evaluated_once_per_call:
  assumes "built cfg target subject = Some (d, ctx)"
    and "\<forall>l'\<in>set (leaves d). launches l'"
    and "l \<in> set (leaves d)"
    and "\<forall>l'\<in>set (leaves d). leaf_key l' = leaf_key l \<longrightarrow> dispatches ctx l'"
  shows "count_key (leaf_key l) (evaluations (snd (matches cfg subject target fb w))) =
           count_key (leaf_key l) (evaluations w) + 1 \<and>
         count_key (leaf_key l)
           (evaluations (snd (matches cfg subject target fb' (snd (matches cfg subject target fb w))))) =
           count_key (leaf_key l) (evaluations w) + 2"
  using once_per_call [OF assms, of fb w]
    once_per_call [OF assms, of fb' "snd (matches cfg subject target fb w)"]
  by simp

text \<open>
  An instance: in \<open>and(T, not(T), F)\<close> the matcher \<open>T\<close> is referenced twice; its evaluator
  runs once in a first call and once more in a second.
\<close>

lemma evaluated_once_per_call_example:
  "count_key (makeMatcherCacheKey ''T'' JUndefined)
     (evaluations (snd (matches
        \<lparr>segmentsObj = [''s'' \<mapsto> (\<lambda>subject. Builds (AndDef [T, NotDef T, F]))],
         onError_configured = True\<rparr>
        (JObj []) (Named ''s'') None initial_world))) = 1 \<and>
   count_key (makeMatcherCacheKey ''T'' JUndefined)
     (evaluations (snd (matches
        \<lparr>segmentsObj = [''s'' \<mapsto> (\<lambda>subject. Builds (AndDef [T, NotDef T, F]))],
         onError_configured = True\<rparr>
        (JObj []) (Named ''s'') None
        (snd (matches
           \<lparr>segmentsObj = [''s'' \<mapsto> (\<lambda>subject. Builds (AndDef [T, NotDef T, F]))],
            onError_configured = True\<rparr>
           (JObj []) (Named ''s'') None initial_world))))) = 2"
proof -
  let ?cfg = "\<lparr>segmentsObj = [''s'' \<mapsto> (\<lambda>subject. Builds (AndDef [T, NotDef T, F]))],
               onError_configured = True\<rparr>"
  let ?l = "(''T'', always True, JUndefined)"
  have b: "built ?cfg (Named ''s'') (JObj []) =
             Some (AndDef [T, NotDef T, F], call_context (JObj []) (Some ''s''))"
    by (simp add: built_def)
  have l: "?l \<in> set (leaves (AndDef [T, NotDef T, F]))"
    by (simp add: T_def)
  have n: "\<forall>l'\<in>set (leaves (AndDef [T, NotDef T, F])). launches l'"
    by (simp add: T_def F_def always_def launches_def)
  have d: "\<forall>l'\<in>set (leaves (AndDef [T, NotDef T, F])).
             leaf_key l' = leaf_key ?l \<longrightarrow> dispatches (call_context (JObj []) (Some ''s'')) l'"
    by (simp add: T_def F_def always_def dispatches_def)
  have k: "leaf_key ?l = makeMatcherCacheKey ''T'' JUndefined"
    by (simp add: leaf_key_def always_def)
  have z: "count_key (makeMatcherCacheKey ''T'' JUndefined) (evaluations initial_world) = 0"
    by (simp add: count_key_def initial_world_def)
  from evaluated_once_per_call [OF b n l d, of None initial_world None] show ?thesis
    unfolding k z by simp
qed

end
